theory Spec2Isabelle
  imports Main
begin

section \<open>Data model of \<open>src/main.cpp\<close>\<close>

text \<open>
  A path is a \<open>std::string\<close>: one character per process id, the character of id \<open>i\<close>
  being \<open>static_cast<char>(i + '0')\<close>.  The four value characters are the global
  constants of the source.
\<close>

type_synonym Path = string

definition ONE :: char where "ONE = CHR ''1''"
definition ZERO :: char where "ZERO = CHR ''0''"
definition UNKNOWN :: char where "UNKNOWN = CHR ''?''"
definition FAULTY :: char where "FAULTY = CHR ''X''"

record Node =
  input_value :: char
  output_value :: char

text \<open>\<open>Node()\<close>: both constructor arguments default to \<open>FAULTY\<close>.\<close>

definition Node_default :: Node where
  "Node_default = \<lparr>input_value = FAULTY, output_value = FAULTY\<rparr>"

text \<open>
  The data members of class \<open>Traits\<close>.  \<open>mSource\<close> and \<open>mM\<close> are \<open>int\<close> and \<open>mN\<close> is
  \<open>size_t\<close> in the source; the model takes the non-negative values (a negative \<open>mM\<close>
  or \<open>mSource\<close> is not a configuration of the program).
\<close>

record Traits =
  mSource :: nat
  mM :: nat
  mN :: nat
  mDebug :: bool

definition GetSourceValue :: Node where
  "GetSourceValue = \<lparr>input_value = ZERO, output_value = UNKNOWN\<rparr>"

text \<open>\<open>destination & 1\<close> is non-zero exactly for an odd destination.\<close>

definition GetValue :: "Traits \<Rightarrow> char \<Rightarrow> nat \<Rightarrow> nat \<Rightarrow> Path \<Rightarrow> char" where
  "GetValue tr val source destination path =
     (if source = mSource tr then (if odd destination then ZERO else ONE)
      else if source = 2 then ONE
      else val)"

definition GetDefault :: char where
  "GetDefault = ONE"

definition IsFaulty :: "Traits \<Rightarrow> nat \<Rightarrow> bool" where
  "IsFaulty tr process = (if process = mSource tr \<or> process = 2 then True else False)"

text \<open>
  The static maps of class \<open>Process\<close>.  \<open>mChildren\<close> is kept as an association list, since
  the constructor tests it for emptiness (\<open>mChildren.size() == 0\<close>); the order of its
  keys is never observed (the source never iterates over the map).  \<open>mPathsByRank\<close> is
  only ever subscripted, and \<open>operator[]\<close> of a missing key yields an empty vector, so it
  is the total function from rank and id to the vector, empty by default.
\<close>

record Topology =
  mChildren :: "(Path \<times> Path list) list"
  mPathsByRank :: "nat \<Rightarrow> nat \<Rightarrow> Path list"

definition Topology_empty :: Topology where
  "Topology_empty = \<lparr>mChildren = [], mPathsByRank = (\<lambda>rank id. [])\<rparr>"

text \<open>\<open>mPathsByRank[rank][source].push_back(p)\<close>\<close>

definition push_path :: "(nat \<Rightarrow> nat \<Rightarrow> Path list) \<Rightarrow> nat \<Rightarrow> nat \<Rightarrow> Path \<Rightarrow> nat \<Rightarrow> nat \<Rightarrow> Path list" where
  "push_path f rank source p = f(rank := (f rank)(source := f rank source @ [p]))"

text \<open>\<open>mChildren[key].push_back(p)\<close>: a missing key is created with the one element.\<close>

fun push_child :: "(Path \<times> Path list) list \<Rightarrow> Path \<Rightarrow> Path \<Rightarrow> (Path \<times> Path list) list" where
  "push_child [] key p = [(key, [p])]"
| "push_child ((k, ps) # rest) key p =
     (if k = key then (k, ps @ [p]) # rest else (k, ps) # push_child rest key p)"

text \<open>
  \<open>mChildren[key]\<close> evaluated for a read: \<open>operator[]\<close> creates a missing key with an
  empty vector and leaves a present key alone.  This is what the debug block of
  \<open>GenerateChildren\<close> does to the map while the topology is being built.
\<close>

fun touch_child :: "(Path \<times> Path list) list \<Rightarrow> Path \<Rightarrow> (Path \<times> Path list) list" where
  "touch_child [] key = [(key, [])]"
| "touch_child ((k, ps) # rest) key =
     (if k = key then (k, ps) # rest else (k, ps) # touch_child rest key)"

text \<open>
  The value read by \<open>mChildren[path]\<close>: the vector stored at the key, the empty vector
  when there is none.  The reads of \<open>GetMajority\<close> are modelled by the value alone:
  they too create a missing key, but they run after all constructors, and the only test of
  the map's keys is the one in the constructor.
\<close>

definition children_of :: "Topology \<Rightarrow> Path \<Rightarrow> Path list" where
  "children_of T path = (case map_of (mChildren T) path of None \<Rightarrow> [] | Some cs \<Rightarrow> cs)"

text \<open>
  The character appended to a path for process id \<open>i\<close>: \<open>static_cast<char>(i + '0')\<close>,
  where \<open>'0'\<close> is 48 and the conversion to \<open>char\<close> keeps the low 8 bits (\<open>char_of\<close>).
\<close>

definition id_char :: "nat \<Rightarrow> char" where
  "id_char i = char_of (i + 48)"

section \<open>Path topology: \<open>Process::GenerateChildren\<close>\<close>

text \<open>
  \<open>ids\<close> is passed by value, so the update \<open>ids[source] = false\<close> is local to the call;
  the two static maps are threaded through the recursive calls.  \<open>GenerateChildren_loop\<close>
  is the \<open>for\<close> loop over \<open>i\<close>, given the ids still to visit.  \<open>debug\<close> is the value of
  \<open>mTraits.mDebug\<close>: the debug block after the loop prints the children of the new path
  and, to do so, evaluates \<open>mChildren[current_path]\<close>, which creates an empty entry for
  a path that has none; the printing itself is left out.  \<open>ids[source]\<close> with \<open>source\<close>
  beyond the vector is undefined behaviour in the source; every call made by the program
  has \<open>source < ids.size()\<close>.
\<close>

function GenerateChildren ::
    "bool \<Rightarrow> nat \<Rightarrow> nat \<Rightarrow> bool list \<Rightarrow> nat \<Rightarrow> Path \<Rightarrow> nat \<Rightarrow> Topology \<Rightarrow> Topology"
  and GenerateChildren_loop ::
    "bool \<Rightarrow> nat \<Rightarrow> nat \<Rightarrow> bool list \<Rightarrow> Path \<Rightarrow> nat \<Rightarrow> nat list \<Rightarrow> Topology \<Rightarrow> Topology" where
  "GenerateChildren debug m n ids source current_path rank T =
     (let ids1 = ids[source := False];
          cp = current_path @ [id_char source];
          T1 = T\<lparr>mPathsByRank := push_path (mPathsByRank T) rank source cp\<rparr>;
          T2 = (if rank < m
                then GenerateChildren_loop debug m n ids1 cp rank [0..<length ids1] T1
                else T1)
      in if debug then T2\<lparr>mChildren := touch_child (mChildren T2) cp\<rparr> else T2)"
| "GenerateChildren_loop debug m n ids cp rank [] T = T"
| "GenerateChildren_loop debug m n ids cp rank (i # is) T =
     GenerateChildren_loop debug m n ids cp rank is
       (if ids ! i
        then (let Tr = GenerateChildren debug m n ids i cp (rank + 1) T
              in Tr\<lparr>mChildren := push_child (mChildren Tr) cp (cp @ [id_char i])\<rparr>)
        else T)"
  by pat_completeness auto
termination
  by (relation "inv_image (less_than <*lex*> less_than)
         (\<lambda>x. case x of
            Inl (debug, m, n, ids, source, current_path, rank, T) \<Rightarrow>
              (if rank < m then 2 * (m - rank) + 2 else 1, 0)
          | Inr (debug, m, n, ids, cp, rank, is, T) \<Rightarrow>
              (if rank < m then 2 * (m - rank) + 1 else 2, length is))") auto

declare GenerateChildren.simps [simp del] GenerateChildren_loop.simps [simp del]

section \<open>Participant state\<close>

record Process =
  mId :: nat
  mNodes :: "Path \<rightharpoonup> Node"

text \<open>
  \<open>mNodes[path]\<close> creates a default node when the key is missing: \<open>subscript\<close> is the map
  after the access and \<open>node_at\<close> the node the access refers to.
\<close>

definition subscript :: "(Path \<rightharpoonup> Node) \<Rightarrow> Path \<Rightarrow> (Path \<rightharpoonup> Node)" where
  "subscript ns path = (case ns path of None \<Rightarrow> ns(path \<mapsto> Node_default) | Some nd \<Rightarrow> ns)"

definition node_at :: "(Path \<rightharpoonup> Node) \<Rightarrow> Path \<Rightarrow> Node" where
  "node_at ns path = (case ns path of None \<Rightarrow> Node_default | Some nd \<Rightarrow> nd)"

definition ReceiveMessage :: "Process \<Rightarrow> Path \<Rightarrow> Node \<Rightarrow> Process" where
  "ReceiveMessage p path node = p\<lparr>mNodes := (mNodes p)(path \<mapsto> node)\<rparr>"

text \<open>
  The constructor: the first process built (more exactly, every process built while
  \<open>mChildren\<close> is still empty) generates the topology; the source seeds the empty path.
\<close>

definition Process_ctor :: "Traits \<Rightarrow> nat \<Rightarrow> Topology \<Rightarrow> Topology \<times> Process" where
  "Process_ctor tr ident T =
     (let T1 = (if mChildren T = []
                then GenerateChildren (mDebug tr) (mM tr) (mN tr) (replicate (mN tr) True)
                       (mSource tr) [] 0 T
                else T);
          ns = (if ident = mSource tr then Map.empty([] \<mapsto> GetSourceValue) else Map.empty)
      in (T1, \<lparr>mId = ident, mNodes = ns\<rparr>))"

section \<open>Messaging: \<open>Process::SendMessages\<close>\<close>

text \<open>
  The process vector is the store: \<open>self\<close> is the index of \<open>this\<close> in it, so that a
  delivery to \<open>processes[j]\<close> with \<open>j = self\<close> changes the sender.  \<open>deliver\<close> is the
  body of the inner loop over \<open>j\<close>, \<open>send_path\<close> one iteration of the outer loop;
  \<open>source_node\<close> is a copy taken before the deliveries.  (\<open>substr(0, size() - 1)\<close> drops
  the last character.  \<open>processes[j]\<close> beyond the vector is undefined behaviour in the
  source; the vector of \<open>main\<close> has \<open>mN\<close> elements.)
\<close>

definition deliver :: "Traits \<Rightarrow> nat \<Rightarrow> Path \<Rightarrow> char \<Rightarrow> nat \<Rightarrow> Process list \<Rightarrow> Process list" where
  "deliver tr ident path val j ps =
     (if j \<noteq> mSource tr
      then ps[j := ReceiveMessage (ps ! j) path
             \<lparr>input_value = GetValue tr val ident j path, output_value = UNKNOWN\<rparr>]
      else ps)"

definition send_path :: "Traits \<Rightarrow> nat \<Rightarrow> Path \<Rightarrow> Process list \<Rightarrow> Process list" where
  "send_path tr self path procs =
     (let source_node_path = butlast path;
          me = procs ! self;
          source_node = node_at (mNodes me) source_node_path;
          procs1 = procs[self := me\<lparr>mNodes := subscript (mNodes me) source_node_path\<rparr>]
      in fold (deliver tr (mId me) path (input_value source_node)) [0..<mN tr] procs1)"

definition SendMessages :: "Traits \<Rightarrow> Topology \<Rightarrow> nat \<Rightarrow> nat \<Rightarrow> Process list \<Rightarrow> Process list" where
  "SendMessages tr T round self procs =
     fold (send_path tr self) (mPathsByRank T round (mId (procs ! self))) procs"

section \<open>Decision: \<open>Process::GetMajority\<close> and \<open>Process::Decide\<close>\<close>

text \<open>
  \<open>counts\<close> is a \<open>std::map<char,size_t>\<close>; a key that is missing counts as 0 when it is
  incremented, so it is the total function that is 0 everywhere at the start.
  \<open>count_child\<close> is the body of the loop over the children.
\<close>

definition count_child :: "Path \<Rightarrow> (char \<Rightarrow> nat) \<times> (Path \<rightharpoonup> Node) \<Rightarrow> (char \<Rightarrow> nat) \<times> (Path \<rightharpoonup> Node)" where
  "count_child child cn =
     (let counts = fst cn;
          ns1 = subscript (snd cn) child;
          node = node_at ns1 child
      in (counts(output_value node := counts (output_value node) + 1), ns1))"

text \<open>
  \<open>GetMajority_dflt\<close> is the body of \<open>GetMajority\<close> with the value that the call
  \<open>mTraits.GetDefault()\<close> returns as a parameter, so that a statement can say whether the
  default takes part in the result; \<open>GetMajority\<close> is the method of the source.
\<close>

definition GetMajority_dflt ::
  "char \<Rightarrow> Topology \<Rightarrow> (Path \<rightharpoonup> Node) \<Rightarrow> Path \<Rightarrow> char \<times> (Path \<rightharpoonup> Node)" where
  "GetMajority_dflt dflt T ns path =
     (let n = length (children_of T path);
          cn = fold count_child (children_of T path) (\<lambda>c. 0, ns);
          counts = fst cn
      in (if counts ONE > n div 2 then ONE
          else if counts ZERO > n div 2 then ZERO
          else if counts ONE = counts ZERO \<and> counts ONE = n div 2 then dflt
          else UNKNOWN,
          snd cn))"

definition GetMajority :: "Topology \<Rightarrow> (Path \<rightharpoonup> Node) \<Rightarrow> Path \<Rightarrow> char \<times> (Path \<rightharpoonup> Node)" where
  "GetMajority T ns path = GetMajority_dflt GetDefault T ns path"

text \<open>Step 1 of \<open>Decide\<close>, one leaf: \<open>node.output_value = node.input_value\<close>.\<close>

definition set_leaf :: "Path \<Rightarrow> (Path \<rightharpoonup> Node) \<Rightarrow> (Path \<rightharpoonup> Node)" where
  "set_leaf path ns =
     (let ns1 = subscript ns path;
          node = node_at ns1 path
      in ns1(path \<mapsto> node\<lparr>output_value := input_value node\<rparr>))"

text \<open>
  Step 2 of \<open>Decide\<close>, one path: the reference \<open>node\<close> is taken first, then
  \<open>GetMajority\<close> runs, then the output is stored through the reference.
\<close>

definition set_internal :: "Topology \<Rightarrow> Path \<Rightarrow> (Path \<rightharpoonup> Node) \<Rightarrow> (Path \<rightharpoonup> Node)" where
  "set_internal T path ns =
     (let ns1 = subscript ns path;
          r = GetMajority T ns1 path;
          ns2 = snd r
      in ns2(path \<mapsto> (node_at ns2 path)\<lparr>output_value := fst r\<rparr>))"

text \<open>The loops over \<open>j\<close> for one \<open>i\<close>, and the loops over \<open>i\<close>.\<close>

definition leaf_ids :: "Topology \<Rightarrow> nat \<Rightarrow> nat \<Rightarrow> (Path \<rightharpoonup> Node) \<Rightarrow> (Path \<rightharpoonup> Node)" where
  "leaf_ids T m i ns = fold set_leaf (mPathsByRank T m i) ns"

definition leaf_pass :: "Traits \<Rightarrow> Topology \<Rightarrow> (Path \<rightharpoonup> Node) \<Rightarrow> (Path \<rightharpoonup> Node)" where
  "leaf_pass tr T ns = fold (leaf_ids T (mM tr)) [0..<mN tr] ns"

definition reduce_ids :: "Topology \<Rightarrow> nat \<Rightarrow> nat \<Rightarrow> (Path \<rightharpoonup> Node) \<Rightarrow> (Path \<rightharpoonup> Node)" where
  "reduce_ids T round i ns = fold (set_internal T) (mPathsByRank T round i) ns"

definition reduce_round :: "Traits \<Rightarrow> Topology \<Rightarrow> nat \<Rightarrow> (Path \<rightharpoonup> Node) \<Rightarrow> (Path \<rightharpoonup> Node)" where
  "reduce_round tr T round ns = fold (reduce_ids T round) [0..<mN tr] ns"

text \<open>
  \<open>Decide_nodes\<close> is the node map after steps 1 and 2 (the rounds of step 2 run from
  \<open>mM - 1\<close> down to 0).  \<open>Decide\<close> returns the decision and the process with its node map
  as the call leaves it.  \<open>front()\<close> of an empty vector is undefined behaviour in the
  source (\<open>hd []\<close> here); after construction the vector of rank 0 of the source is never
  empty.
\<close>

definition Decide_nodes :: "Traits \<Rightarrow> Topology \<Rightarrow> (Path \<rightharpoonup> Node) \<Rightarrow> (Path \<rightharpoonup> Node)" where
  "Decide_nodes tr T ns = fold (reduce_round tr T) (rev [0..<mM tr]) (leaf_pass tr T ns)"

definition Decide :: "Traits \<Rightarrow> Topology \<Rightarrow> Process \<Rightarrow> char \<times> Process" where
  "Decide tr T p =
     (if mId p = mSource tr
      then (input_value (node_at (mNodes p) []), p\<lparr>mNodes := subscript (mNodes p) []\<rparr>)
      else (let ns2 = Decide_nodes tr T (mNodes p);
                top_path = hd (mPathsByRank T 0 (mSource tr));
                ns3 = subscript ns2 top_path
            in (output_value (node_at ns3 top_path), p\<lparr>mNodes := ns3\<rparr>)))"

section \<open>The driver: \<open>main\<close>\<close>

text \<open>
  \<open>construct\<close> is the first loop of \<open>main\<close> (the processes are built in id order, so
  process \<open>i\<close> is at index \<open>i\<close>), \<open>run_rounds\<close> the second.  \<open>N\<close>, \<open>M\<close> and \<open>SOURCE\<close> are
  the values the traits object was built from.
\<close>

definition construct_step :: "Traits \<Rightarrow> nat \<Rightarrow> Topology \<times> Process list \<Rightarrow> Topology \<times> Process list" where
  "construct_step tr i Tps =
     (let r = Process_ctor tr i (fst Tps) in (fst r, snd Tps @ [snd r]))"

definition construct :: "Traits \<Rightarrow> Topology \<times> Process list" where
  "construct tr = fold (construct_step tr) [0..<mN tr] (Topology_empty, [])"

definition run_round :: "Traits \<Rightarrow> Topology \<Rightarrow> nat \<Rightarrow> Process list \<Rightarrow> Process list" where
  "run_round tr T i procs = fold (SendMessages tr T i) [0..<mN tr] procs"

definition run_rounds :: "Traits \<Rightarrow> Topology \<Rightarrow> Process list \<Rightarrow> Process list" where
  "run_rounds tr T procs = fold (run_round tr T) [0..<mM tr + 1] procs"

text \<open>
  The report loop: for a process that is not faulty, \<open>Decide\<close> is called and its value
  printed (\<open>Some\<close>); a faulty one is only reported as such (\<open>None\<close>).
\<close>

definition report_step :: "Traits \<Rightarrow> Topology \<Rightarrow> nat \<Rightarrow> char option list \<times> Process list \<Rightarrow> char option list \<times> Process list" where
  "report_step tr T j ops =
     (if \<not> IsFaulty tr j
      then (let r = Decide tr T (snd ops ! j) in (fst ops @ [Some (fst r)], (snd ops)[j := snd r]))
      else (fst ops @ [None], snd ops))"

definition report :: "Traits \<Rightarrow> Topology \<Rightarrow> Process list \<Rightarrow> char option list \<times> Process list" where
  "report tr T procs = fold (report_step tr T) [0..<mN tr] ([], procs)"

definition main_run :: "Traits \<Rightarrow> Topology \<times> Process list" where
  "main_run tr = (let c = construct tr in (fst c, run_rounds tr (fst c) (snd c)))"

definition main_report :: "Traits \<Rightarrow> char option list" where
  "main_report tr = (let s = main_run tr in fst (report tr (fst s) (snd s)))"

text \<open>The static traits object of the program: \<open>Traits(SOURCE, M, N, DEBUG)\<close>.\<close>

definition mTraits :: Traits where
  "mTraits = \<lparr>mSource = 3, mM = 2, mN = 7, mDebug = False\<rparr>"

section \<open>Specification-level notions\<close>

text \<open>
  The votes at a path are the output values of its children, in the order of the
  children vector; a child without a node votes with the default node's \<open>FAULTY\<close>.
\<close>

definition votes :: "Topology \<Rightarrow> (Path \<rightharpoonup> Node) \<Rightarrow> Path \<Rightarrow> char list" where
  "votes T ns path = map (\<lambda>c. output_value (node_at ns c)) (children_of T path)"

text \<open>
  The majority rule as the specification words it (section 4.5), on the list of votes
  and with the policy default as a parameter.
\<close>

definition majority_spec :: "char \<Rightarrow> char list \<Rightarrow> char" where
  "majority_spec dflt vs =
     (let n = length vs; ones = count_list vs ONE; zeros = count_list vs ZERO
      in if ones > n div 2 then ONE
         else if zeros > n div 2 then ZERO
         else if ones = zeros \<and> ones = n div 2 then dflt
         else UNKNOWN)"

text \<open>The number of votes that are neither \<open>ONE\<close> nor \<open>ZERO\<close>.\<close>

definition others :: "char list \<Rightarrow> nat" where
  "others vs = length (filter (\<lambda>v. v \<noteq> ONE \<and> v \<noteq> ZERO) vs)"

section \<open>Example configurations and node maps\<close>

definition cfg_4_1 :: Traits where
  "cfg_4_1 = \<lparr>mSource = 0, mM = 1, mN = 4, mDebug = False\<rparr>"

definition cfg_3_2 :: Traits where
  "cfg_3_2 = \<lparr>mSource = 0, mM = 2, mN = 3, mDebug = False\<rparr>"

definition cfg_2_2 :: Traits where
  "cfg_2_2 = \<lparr>mSource = 0, mM = 2, mN = 2, mDebug = False\<rparr>"

text \<open>The configuration of the program with the debug trace switched on.\<close>

definition cfg_debug :: Traits where
  "cfg_debug = \<lparr>mSource = 3, mM = 2, mN = 7, mDebug = True\<rparr>"

definition cfg_257 :: Traits where
  "cfg_257 = \<lparr>mSource = 1, mM = 2, mN = 257, mDebug = False\<rparr>"

text \<open>Three children of the root of \<open>cfg_4_1\<close> voting \<open>ONE\<close>, \<open>ZERO\<close> and \<open>UNKNOWN\<close>.\<close>

definition nodes_split :: "Path \<rightharpoonup> Node" where
  "nodes_split = [''01'' \<mapsto> \<lparr>input_value = ONE, output_value = ONE\<rparr>,
                  ''02'' \<mapsto> \<lparr>input_value = ZERO, output_value = ZERO\<rparr>,
                  ''03'' \<mapsto> \<lparr>input_value = UNKNOWN, output_value = UNKNOWN\<rparr>]"

text \<open>Nodes as \<open>ReceiveMessage\<close> stores them: an input value and the output \<open>UNKNOWN\<close>.\<close>

definition nodes_unknown :: "Path \<rightharpoonup> Node" where
  "nodes_unknown = [''01'' \<mapsto> \<lparr>input_value = ZERO, output_value = UNKNOWN\<rparr>,
                    ''02'' \<mapsto> \<lparr>input_value = ONE, output_value = UNKNOWN\<rparr>,
                    ''03'' \<mapsto> \<lparr>input_value = ZERO, output_value = UNKNOWN\<rparr>,
                    ''012'' \<mapsto> \<lparr>input_value = ZERO, output_value = UNKNOWN\<rparr>]"

section \<open>The pushes of \<open>GenerateChildren\<close> as lists\<close>

text \<open>
  What a call of \<open>GenerateChildren\<close> does to the two static maps does not depend on
  their contents: \<open>gc_paths\<close> lists the triples of rank, id and path that the call and
  its recursive calls push onto \<open>mPathsByRank\<close>, and \<open>gc_pushes\<close> the pairs of key and
  child that they push onto \<open>mChildren\<close>, both in the order of the pushes.
  \<open>gc_entries\<close> lists all the accesses to \<open>mChildren\<close> in their order: a push of a
  child under a key (\<open>Some\<close>), or the read of a key by the debug block (\<open>None\<close>).
\<close>

function gc_paths :: "nat \<Rightarrow> bool list \<Rightarrow> nat \<Rightarrow> Path \<Rightarrow> nat \<Rightarrow> (nat \<times> nat \<times> Path) list" where
  "gc_paths m ids source current_path rank =
     (rank, source, current_path @ [id_char source]) #
     (if rank < m
      then concat (map (\<lambda>i. if ids[source := False] ! i
                              then gc_paths m (ids[source := False]) i (current_path @ [id_char source]) (rank + 1)
                              else [])
                    [0..<length ids])
      else [])"
  by pat_completeness auto
termination
  by (relation "measure (\<lambda>(m, ids, source, current_path, rank). m - rank)") auto

function gc_pushes :: "nat \<Rightarrow> bool list \<Rightarrow> nat \<Rightarrow> Path \<Rightarrow> nat \<Rightarrow> (Path \<times> Path) list" where
  "gc_pushes m ids source current_path rank =
     (if rank < m
      then concat (map (\<lambda>i. if ids[source := False] ! i
                              then gc_pushes m (ids[source := False]) i (current_path @ [id_char source]) (rank + 1)
                                   @ [(current_path @ [id_char source], (current_path @ [id_char source]) @ [id_char i])]
                              else [])
                    [0..<length ids])
      else [])"
  by pat_completeness auto
termination
  by (relation "measure (\<lambda>(m, ids, source, current_path, rank). m - rank)") auto

function gc_entries :: "bool \<Rightarrow> nat \<Rightarrow> bool list \<Rightarrow> nat \<Rightarrow> Path \<Rightarrow> nat \<Rightarrow> (Path \<times> Path option) list" where
  "gc_entries debug m ids source current_path rank =
     (if rank < m
      then concat (map (\<lambda>i. if ids[source := False] ! i
                              then gc_entries debug m (ids[source := False]) i (current_path @ [id_char source]) (rank + 1)
                                   @ [(current_path @ [id_char source], Some ((current_path @ [id_char source]) @ [id_char i]))]
                              else [])
                    [0..<length ids])
      else [])
     @ (if debug then [(current_path @ [id_char source], None)] else [])"
  by pat_completeness auto
termination
  by (relation "measure (\<lambda>(debug, m, ids, source, current_path, rank). m - rank)") auto

declare gc_paths.simps [simp del] gc_pushes.simps [simp del] gc_entries.simps [simp del]

text \<open>The pushes among a list of accesses.\<close>

definition pushes_of :: "(Path \<times> Path option) list \<Rightarrow> (Path \<times> Path) list" where
  "pushes_of es = concat (map (\<lambda>x. case snd x of Some c \<Rightarrow> [(fst x, c)] | None \<Rightarrow> []) es)"

definition add_paths :: "(nat \<times> nat \<times> Path) list \<Rightarrow> (nat \<Rightarrow> nat \<Rightarrow> Path list) \<Rightarrow> nat \<Rightarrow> nat \<Rightarrow> Path list" where
  "add_paths ps f = fold (\<lambda>x g. push_path g (fst x) (fst (snd x)) (snd (snd x))) ps f"

definition entry_step :: "Path \<times> Path option \<Rightarrow> (Path \<times> Path list) list \<Rightarrow> (Path \<times> Path list) list" where
  "entry_step x al = (case snd x of Some c \<Rightarrow> push_child al (fst x) c | None \<Rightarrow> touch_child al (fst x))"

definition add_entries :: "(Path \<times> Path option) list \<Rightarrow> (Path \<times> Path list) list \<Rightarrow> (Path \<times> Path list) list" where
  "add_entries es al = fold entry_step es al"

definition apply_pushes :: "(nat \<times> nat \<times> Path) list \<Rightarrow> (Path \<times> Path option) list \<Rightarrow> Topology \<Rightarrow> Topology" where
  "apply_pushes ps es T =
     \<lparr>mChildren = add_entries es (mChildren T), mPathsByRank = add_paths ps (mPathsByRank T)\<rparr>"


text \<open>
  The pushes and the accesses of the call the constructor makes, and the process the
  constructor builds.
\<close>

definition root_paths :: "Traits \<Rightarrow> (nat \<times> nat \<times> Path) list" where
  "root_paths tr = gc_paths (mM tr) (replicate (mN tr) True) (mSource tr) [] 0"

definition root_pushes :: "Traits \<Rightarrow> (Path \<times> Path) list" where
  "root_pushes tr = gc_pushes (mM tr) (replicate (mN tr) True) (mSource tr) [] 0"

definition root_entries :: "Traits \<Rightarrow> (Path \<times> Path option) list" where
  "root_entries tr = gc_entries (mDebug tr) (mM tr) (replicate (mN tr) True) (mSource tr) [] 0"

definition Process_init :: "Traits \<Rightarrow> nat \<Rightarrow> Process" where
  "Process_init tr i =
     \<lparr>mId = i, mNodes = (if i = mSource tr then Map.empty([] \<mapsto> GetSourceValue) else Map.empty)\<rparr>"


text \<open>
  Well-formedness of a topology for a configuration: a path of rank \<open>r\<close> has \<open>r + 1\<close>
  characters, the last one that of its id; rank 0 holds the source's one-character path
  and nothing else, and the source has no other path; every path of rank \<open>r + 1\<close> extends
  one of rank \<open>r\<close>; the children of a path are paths of the next rank.
\<close>

definition topo_ok :: "Traits \<Rightarrow> Topology \<Rightarrow> bool" where
  "topo_ok tr T \<longleftrightarrow>
     (\<forall>r i P. P \<in> set (mPathsByRank T r i) \<longrightarrow>
        length P = r + 1 \<and> r \<le> mM tr \<and> i < mN tr \<and> last P = id_char i) \<and>
     (\<forall>r i P. P \<in> set (mPathsByRank T r i) \<longrightarrow> (r = 0 \<or> i = mSource tr) \<longrightarrow>
        r = 0 \<and> i = mSource tr \<and> P = [id_char (mSource tr)]) \<and>
     mPathsByRank T 0 (mSource tr) \<noteq> [] \<and>
     (\<forall>r i P. P \<in> set (mPathsByRank T (Suc r) i) \<longrightarrow>
        (\<exists>k<mN tr. butlast P \<in> set (mPathsByRank T r k))) \<and>
     (\<forall>P c. c \<in> set (children_of T P) \<longrightarrow>
        (\<exists>j<mN tr. c \<in> set (mPathsByRank T (length P) j)))"

section \<open>Invariant of the messaging rounds\<close>

text \<open>
  The node map the constructor gives the source, and the invariant of the rounds: the
  vector has \<open>mN\<close> processes, process \<open>j\<close> at index \<open>j\<close>; the source's node map is
  the seeded one; every other process has nodes exactly at the paths of \<open>D\<close>;
  every node has the output \<open>UNKNOWN\<close>, as the constructor and \<open>ReceiveMessage\<close>
  store it (none is a default node).
  \<open>paths_upto tr T k\<close> are the paths of the ranks below \<open>k\<close>.
\<close>

definition seed_nodes :: "Path \<rightharpoonup> Node" where
  "seed_nodes = Map.empty([] \<mapsto> GetSourceValue)"

definition run_inv :: "Traits \<Rightarrow> Path set \<Rightarrow> Process list \<Rightarrow> bool" where
  "run_inv tr D ps \<longleftrightarrow>
     length ps = mN tr \<and>
     (\<forall>j<mN tr. mId (ps ! j) = j) \<and>
     mNodes (ps ! mSource tr) = seed_nodes \<and>
     (\<forall>j<mN tr. j \<noteq> mSource tr \<longrightarrow> dom (mNodes (ps ! j)) = D) \<and>
     (\<forall>j<mN tr. \<forall>P nd. mNodes (ps ! j) P = Some nd \<longrightarrow> output_value nd = UNKNOWN)"

definition paths_upto :: "Traits \<Rightarrow> Topology \<Rightarrow> nat \<Rightarrow> Path set" where
  "paths_upto tr T k = {P. \<exists>r<k. \<exists>i<mN tr. P \<in> set (mPathsByRank T r i)}"

section \<open>The node-map accesses of \<open>Decide\<close>\<close>

text \<open>
  The keys that \<open>Decide\<close> subscripts \<open>mNodes\<close> with, in the order of the accesses: the
  paths of rank \<open>mM\<close> in step 1; in step 2, for each round from \<open>mM - 1\<close> down to 0, each
  path of the round followed by its children (the accesses of \<open>GetMajority\<close>); then the
  top path.  The source only reads the empty path.  \<open>all_paths\<close> are the paths of the
  ranks 0 to \<open>mM\<close>.
\<close>

definition leaf_keys :: "Traits \<Rightarrow> Topology \<Rightarrow> Path list" where
  "leaf_keys tr T = concat (map (\<lambda>i. mPathsByRank T (mM tr) i) [0..<mN tr])"

definition round_keys :: "Traits \<Rightarrow> Topology \<Rightarrow> nat \<Rightarrow> Path list" where
  "round_keys tr T round =
     concat (map (\<lambda>i. concat (map (\<lambda>P. P # children_of T P) (mPathsByRank T round i))) [0..<mN tr])"

definition Decide_keys :: "Traits \<Rightarrow> Topology \<Rightarrow> Process \<Rightarrow> Path list" where
  "Decide_keys tr T p =
     (if mId p = mSource tr then [[]]
      else leaf_keys tr T @ concat (map (round_keys tr T) (rev [0..<mM tr]))
           @ [hd (mPathsByRank T 0 (mSource tr))])"

definition all_paths :: "Traits \<Rightarrow> Topology \<Rightarrow> Path set" where
  "all_paths tr T = {P. \<exists>r\<le>mM tr. \<exists>i<mN tr. P \<in> set (mPathsByRank T r i)}"

section \<open>The decision as a function of the inputs\<close>

text \<open>
  The input and the output value that a node map gives a path (those of the default
  node when the path has none).  \<open>tree_val T f d P\<close> is the value of the majority
  reduction at \<open>P\<close> over the subtree of depth \<open>d\<close> below it, with the leaves taken from
  \<open>f\<close>.  \<open>rank_paths\<close> are the paths of one rank in the order in which the loops of
  \<open>Decide\<close> visit them, and \<open>decided tr T f k ns\<close> says that \<open>ns\<close> has the inputs \<open>f\<close>
  and that the outputs of the ranks \<open>k\<close> to \<open>mM\<close> are those of the reduction.
\<close>

definition inp :: "(Path \<rightharpoonup> Node) \<Rightarrow> Path \<Rightarrow> char" where
  "inp ns P = input_value (node_at ns P)"

definition outp :: "(Path \<rightharpoonup> Node) \<Rightarrow> Path \<Rightarrow> char" where
  "outp ns P = output_value (node_at ns P)"

fun tree_val :: "Topology \<Rightarrow> (Path \<Rightarrow> char) \<Rightarrow> nat \<Rightarrow> Path \<Rightarrow> char" where
  "tree_val T f 0 P = f P"
| "tree_val T f (Suc d) P = majority_spec GetDefault (map (tree_val T f d) (children_of T P))"

definition rank_paths :: "Traits \<Rightarrow> Topology \<Rightarrow> nat \<Rightarrow> Path list" where
  "rank_paths tr T r = concat (map (mPathsByRank T r) [0..<mN tr])"

definition decided :: "Traits \<Rightarrow> Topology \<Rightarrow> (Path \<Rightarrow> char) \<Rightarrow> nat \<Rightarrow> (Path \<rightharpoonup> Node) \<Rightarrow> bool" where
  "decided tr T f k ns \<longleftrightarrow>
     inp ns = f \<and>
     (\<forall>r. k \<le> r \<and> r \<le> mM tr \<longrightarrow>
        (\<forall>P \<in> set (rank_paths tr T r). outp ns P = tree_val T f (mM tr - r) P))"

section \<open>Notions for the shape of the tree\<close>

text \<open>
  The keys of a list of child pushes and the children pushed for one key; the children
  that the specification expects of a path among \<open>n\<close> processes (one for each id whose
  character is not in the path, in ascending order of the ids); the number of ids that
  \<open>ids\<close> still marks as available; and the relation between the arguments \<open>ids\<close> and
  \<open>current_path\<close> of a call of \<open>GenerateChildren\<close> when ids and characters correspond
  one to one: the path has no character twice, only characters of ids, and an id is
  available exactly when its character is not in the path.
\<close>

definition keys :: "(Path \<times> Path) list \<Rightarrow> Path set" where
  "keys ps = fst ` set ps"

definition kids :: "Path \<Rightarrow> (Path \<times> Path) list \<Rightarrow> Path list" where
  "kids P ps = map snd (filter (\<lambda>x. fst x = P) ps)"

definition expected_children :: "nat \<Rightarrow> Path \<Rightarrow> Path list" where
  "expected_children n P = map (\<lambda>j. P @ [id_char j]) (filter (\<lambda>j. id_char j \<notin> set P) [0..<n])"

definition avail :: "nat \<Rightarrow> bool list \<Rightarrow> nat" where
  "avail n ids = length (filter (\<lambda>j. ids ! j) [0..<n])"

definition call_ok :: "nat \<Rightarrow> bool list \<Rightarrow> Path \<Rightarrow> bool" where
  "call_ok n ids cp \<longleftrightarrow>
     length ids = n \<and> n \<le> 256 \<and> distinct cp \<and> set cp \<subseteq> id_char ` {..<n} \<and>
     (\<forall>j<n. ids ! j \<longleftrightarrow> id_char j \<notin> set cp)"

section \<open>The majority reduction\<close>

lemma node_at_subscript [simp]: "node_at (subscript ns p) q = node_at ns q"
  by (simp add: node_at_def subscript_def split: option.splits)

lemma count_child_fold:
  "fst (fold count_child cs (cnt, ns)) v =
     cnt v + count_list (map (\<lambda>c. output_value (node_at ns c)) cs) v"
  "node_at (snd (fold count_child cs (cnt, ns))) q = node_at ns q"
  by (induction cs arbitrary: cnt ns) (simp_all add: count_child_def Let_def)

lemma GetMajority_dflt_fst:
  "fst (GetMajority_dflt d T ns path) = majority_spec d (votes T ns path)"
  by (simp add: GetMajority_dflt_def majority_spec_def votes_def Let_def count_child_fold)

lemma node_at_GetMajority_dflt [simp]:
  "node_at (snd (GetMajority_dflt d T ns path)) q = node_at ns q"
  by (simp add: GetMajority_dflt_def Let_def count_child_fold)

lemma tally_sum: "length vs = count_list vs ONE + count_list vs ZERO + others vs"
  by (induction vs) (auto simp: others_def ONE_def ZERO_def)

lemma children_cfg_4_1: "children_of (fst (construct cfg_4_1)) ''0'' = [''01'', ''02'', ''03'']"
  by code_simp

lemma children_cfg_3_2: "children_of (fst (construct cfg_3_2)) ''01'' = [''012'']"
  by code_simp

lemma votes_split: "votes (fst (construct cfg_4_1)) nodes_split ''0'' = [ONE, ZERO, UNKNOWN]"
  by (simp add: votes_def children_cfg_4_1 nodes_split_def node_at_def)

lemma votes_unknown1: "votes (fst (construct cfg_3_2)) nodes_unknown ''01'' = [UNKNOWN]"
  by (simp add: votes_def children_cfg_3_2 nodes_unknown_def node_at_def)

text \<open>
  Claim C2.  \<open>GetMajority\<close> at a path returns what the majority rule of the
  specification gives on the output values of the path's children: \<open>ONE\<close> if the \<open>ONE\<close>
  tally exceeds half the child count (integer division), else \<open>ZERO\<close> if the \<open>ZERO\<close>
  tally does, else the default if both tallies equal half the child count, else
  \<open>UNKNOWN\<close>.
\<close>

theorem GetMajority_majority:
  "fst (GetMajority T ns path) = majority_spec GetDefault (votes T ns path)"
  by (simp add: GetMajority_def GetMajority_dflt_fst)

text \<open>
  Claim C3, as stated, fails: the root of \<open>cfg_4_1\<close> has three children, and with the
  votes \<open>ONE\<close>, \<open>ZERO\<close>, \<open>UNKNOWN\<close> both tallies are 1, which is 3 div 2, so the tie
  clause applies and the result is whatever the default is.
\<close>

theorem default_at_odd_child_count:
  "odd (length (children_of (fst (construct cfg_4_1)) ''0''))
   \<and> votes (fst (construct cfg_4_1)) nodes_split ''0'' = [ONE, ZERO, UNKNOWN]
   \<and> fst (GetMajority_dflt ZERO (fst (construct cfg_4_1)) nodes_split ''0'') = ZERO
   \<and> fst (GetMajority_dflt ONE (fst (construct cfg_4_1)) nodes_split ''0'') = ONE
   \<and> fst (GetMajority (fst (construct cfg_4_1)) nodes_split ''0'') = GetDefault"
  by (simp add: GetMajority_def GetMajority_dflt_fst votes_split children_cfg_4_1 majority_spec_def
        ONE_def ZERO_def UNKNOWN_def GetDefault_def)

text \<open>
  Claim C3, amended.  Whenever the result of the majority reduction depends on the
  default, the \<open>ONE\<close> and \<open>ZERO\<close> tallies are equal and each is the child count divided
  by two (integer division); the child count is then even with every vote \<open>ONE\<close> or
  \<open>ZERO\<close>, or odd with exactly one vote that is neither.
\<close>

theorem default_only_on_floor_split:
  assumes "fst (GetMajority_dflt d T ns path) \<noteq> fst (GetMajority_dflt d' T ns path)"
  shows "count_list (votes T ns path) ONE = count_list (votes T ns path) ZERO
       \<and> count_list (votes T ns path) ONE = length (children_of T path) div 2
       \<and> (even (length (children_of T path)) \<and> others (votes T ns path) = 0
          \<or> odd (length (children_of T path)) \<and> others (votes T ns path) = 1)"
proof -
  let ?vs = "votes T ns path"
  have len: "length ?vs = length (children_of T path)" by (simp add: votes_def)
  from assms have tie: "count_list ?vs ONE = count_list ?vs ZERO \<and> count_list ?vs ONE = length ?vs div 2"
    by (simp add: GetMajority_dflt_fst majority_spec_def Let_def split: if_splits)
  have split: "even n \<and> k = 0 \<or> odd n \<and> k = 1" if "n = a + a + k" "a = n div 2" for n a k :: nat
    using that by presburger
  from tie have e1: "count_list ?vs ZERO = count_list ?vs ONE"
    and e2: "count_list ?vs ONE = length ?vs div 2" by simp_all
  have "length ?vs = count_list ?vs ONE + count_list ?vs ONE + others ?vs"
    using tally_sum [of ?vs] unfolding e1 .
  then have "even (length ?vs) \<and> others ?vs = 0 \<or> odd (length ?vs) \<and> others ?vs = 1"
    by (rule split) (rule e2)
  with tie len show ?thesis by simp
qed

theorem default_only_on_floor_split_witness:
  "fst (GetMajority_dflt ZERO (fst (construct cfg_4_1)) nodes_split ''0'')
     \<noteq> fst (GetMajority_dflt ONE (fst (construct cfg_4_1)) nodes_split ''0'')
   \<and> count_list (votes (fst (construct cfg_4_1)) nodes_split ''0'') ONE = 1
   \<and> count_list (votes (fst (construct cfg_4_1)) nodes_split ''0'') ZERO = 1
   \<and> length (children_of (fst (construct cfg_4_1)) ''0'') div 2 = 1
   \<and> others (votes (fst (construct cfg_4_1)) nodes_split ''0'') = 1"
proof -
  have ne: "fst (GetMajority_dflt ZERO (fst (construct cfg_4_1)) nodes_split ''0'')
     \<noteq> fst (GetMajority_dflt ONE (fst (construct cfg_4_1)) nodes_split ''0'')"
    by (simp add: GetMajority_dflt_fst votes_split majority_spec_def ONE_def ZERO_def UNKNOWN_def)
  from default_only_on_floor_split [OF ne] ne show ?thesis
    by (simp add: votes_split children_cfg_4_1 ONE_def ZERO_def UNKNOWN_def)
qed

text \<open>
  Claim C4, as stated, fails: in \<open>cfg_3_2\<close> the path \<open>01\<close> has the single child \<open>012\<close>;
  when that child's output is \<open>UNKNOWN\<close> both tallies are 0, which is 1 div 2, so the
  tie clause applies and \<open>GetMajority\<close> returns the default \<open>ONE\<close>.
\<close>

theorem single_unknown_child_gives_default:
  "children_of (fst (construct cfg_3_2)) ''01'' = [''012'']
   \<and> output_value (node_at nodes_unknown ''012'') = UNKNOWN
   \<and> fst (GetMajority (fst (construct cfg_3_2)) nodes_unknown ''01'') = ONE
   \<and> ONE \<noteq> UNKNOWN"
proof -
  have "output_value (node_at nodes_unknown ''012'') = UNKNOWN"
    by (simp add: nodes_unknown_def node_at_def)
  moreover have "fst (GetMajority (fst (construct cfg_3_2)) nodes_unknown ''01'') = ONE"
    by (simp add: GetMajority_def GetMajority_dflt_fst votes_unknown1 majority_spec_def
        ONE_def ZERO_def UNKNOWN_def GetDefault_def)
  ultimately show ?thesis
    by (simp add: children_cfg_3_2 ONE_def UNKNOWN_def)
qed

text \<open>
  Claim C4, amended.  When every child of a path has the output \<open>UNKNOWN\<close>,
  \<open>GetMajority\<close> returns \<open>UNKNOWN\<close> if the path has at least two children, and the
  default otherwise.
\<close>

theorem all_unknown_children:
  assumes "\<forall>c \<in> set (children_of T path). output_value (node_at ns c) = UNKNOWN"
  shows "fst (GetMajority T ns path) =
           (if 2 \<le> length (children_of T path) then UNKNOWN else GetDefault)"
proof -
  let ?vs = "votes T ns path"
  from assms have "\<forall>v \<in> set ?vs. v = UNKNOWN" by (auto simp: votes_def)
  then have z: "count_list ?vs ONE = 0" "count_list ?vs ZERO = 0"
    by (auto simp: count_list_0_iff ONE_def ZERO_def UNKNOWN_def)
  have len: "length ?vs = length (children_of T path)" by (simp add: votes_def)
  show ?thesis
    unfolding GetMajority_def GetMajority_dflt_fst majority_spec_def Let_def z len
    by (cases "length (children_of T path)") auto
qed

theorem all_unknown_children_witness:
  "votes (fst (construct cfg_4_1)) nodes_unknown ''0'' = [UNKNOWN, UNKNOWN, UNKNOWN]
   \<and> 2 \<le> length (children_of (fst (construct cfg_4_1)) ''0'')
   \<and> fst (GetMajority (fst (construct cfg_4_1)) nodes_unknown ''0'') = UNKNOWN"
proof -
  have h: "\<forall>c \<in> set (children_of (fst (construct cfg_4_1)) ''0''). output_value (node_at nodes_unknown c) = UNKNOWN"
    by (simp add: children_cfg_4_1 nodes_unknown_def node_at_def)
  have v: "votes (fst (construct cfg_4_1)) nodes_unknown ''0'' = [UNKNOWN, UNKNOWN, UNKNOWN]"
    by (simp add: votes_def children_cfg_4_1 nodes_unknown_def node_at_def)
  from all_unknown_children [OF h] v show ?thesis
    by (simp add: children_cfg_4_1)
qed

section \<open>The topology that the constructors build\<close>

lemma add_paths_simps [simp]:
  "add_paths [] f = f"
  "add_paths (x # ps) f = add_paths ps (push_path f (fst x) (fst (snd x)) (snd (snd x)))"
  "add_paths (ps @ qs) f = add_paths qs (add_paths ps f)"
  by (simp_all add: add_paths_def)

lemma add_entries_simps [simp]:
  "add_entries [] al = al"
  "add_entries (x # es) al = add_entries es (entry_step x al)"
  "add_entries (es @ fs) al = add_entries fs (add_entries es al)"
  by (simp_all add: add_entries_def)

lemma entry_step_simps [simp]:
  "entry_step (k, Some c) al = push_child al k c"
  "entry_step (k, None) al = touch_child al k"
  by (simp_all add: entry_step_def)

lemma apply_pushes_Nil [simp]: "apply_pushes [] [] T = T"
  by (simp add: apply_pushes_def)

lemma apply_pushes_append:
  "apply_pushes ps' cs' (apply_pushes ps cs T) = apply_pushes (ps @ ps') (cs @ cs') T"
  by (simp add: apply_pushes_def)

lemma GenerateChildren_pushes:
  "GenerateChildren d m n ids source cp rank T =
     apply_pushes (gc_paths m ids source cp rank) (gc_entries d m ids source cp rank) T"
  "ids1 = ids0[src := False] \<Longrightarrow> set is \<subseteq> {0..<length ids1} \<Longrightarrow>
   GenerateChildren_loop d m n ids1 np rank is T =
     apply_pushes
       (concat (map (\<lambda>i. if ids1 ! i then gc_paths m ids1 i np (rank + 1) else []) is))
       (concat (map (\<lambda>i. if ids1 ! i then gc_entries d m ids1 i np (rank + 1) @ [(np, Some (np @ [id_char i]))] else []) is))
       T"
proof (induction d m n ids source cp rank T and d m n ids1 np rank "is" T
       arbitrary: and ids0 src rule: GenerateChildren_GenerateChildren_loop.induct)
  case (1 d m n ids source current_path rank T)
  show ?case
  proof (cases "rank < m")
    case True
    have "GenerateChildren_loop d m n (ids[source := False]) (current_path @ [id_char source]) rank
            [0..<length (ids[source := False])]
            (T\<lparr>mPathsByRank := push_path (mPathsByRank T) rank source (current_path @ [id_char source])\<rparr>)
          = apply_pushes
       (concat (map (\<lambda>i. if ids[source := False] ! i then gc_paths m (ids[source := False]) i (current_path @ [id_char source]) (rank + 1) else []) [0..<length (ids[source := False])]))
       (concat (map (\<lambda>i. if ids[source := False] ! i then gc_entries d m (ids[source := False]) i (current_path @ [id_char source]) (rank + 1) @ [(current_path @ [id_char source], Some ((current_path @ [id_char source]) @ [id_char i]))] else []) [0..<length (ids[source := False])]))
       (T\<lparr>mPathsByRank := push_path (mPathsByRank T) rank source (current_path @ [id_char source])\<rparr>)"
      by (rule "1.IH" [OF refl refl refl True refl]) simp
    with True show ?thesis
      by (subst GenerateChildren.simps, subst gc_paths.simps, subst gc_entries.simps)
         (cases d; simp add: Let_def apply_pushes_def)
  next
    case False
    then show ?thesis
      by (subst GenerateChildren.simps, subst gc_paths.simps, subst gc_entries.simps)
         (cases d; simp add: Let_def apply_pushes_def)
  qed
next
  case (2 d m n ids cp rank T)
  show ?case by (simp add: GenerateChildren_loop.simps)
next
  case (3 d m n ids cp rank i "is" T)
  from "3.prems" have sub: "set is \<subseteq> {0..<length ids}" by simp
  show ?case
  proof (cases "ids ! i")
    case True
    from "3.IH"(2) [OF "3.prems"(1) sub] "3.IH"(1) [OF True] True show ?thesis
      by (simp add: GenerateChildren_loop.simps Let_def apply_pushes_def)
  next
    case False
    from "3.IH"(2) [OF "3.prems"(1) sub] False show ?thesis
      by (simp add: GenerateChildren_loop.simps)
  qed
qed

lemma set_gc_paths:
  "set (gc_paths m ids s cp rank) =
     insert (rank, s, cp @ [id_char s])
       (if rank < m
        then (\<Union>i \<in> {i. i < length ids \<and> ids[s := False] ! i}.
                set (gc_paths m (ids[s := False]) i (cp @ [id_char s]) (rank + 1)))
        else {})"
  by (subst gc_paths.simps) auto

lemma set_gc_pushes:
  "set (gc_pushes m ids s cp rank) =
     (if rank < m
      then (\<Union>i \<in> {i. i < length ids \<and> ids[s := False] ! i}.
              insert (cp @ [id_char s], (cp @ [id_char s]) @ [id_char i])
                (set (gc_pushes m (ids[s := False]) i (cp @ [id_char s]) (rank + 1))))
      else {})"
  by (subst gc_pushes.simps) auto

lemma avail_after_update: "i < length ids \<Longrightarrow> ids[s := False] ! i \<Longrightarrow> ids ! i \<and> i \<noteq> s"
  by (cases "i = s") auto

lemma gc_paths_shape:
  "(r, i, p) \<in> set (gc_paths m ids s cp rank) \<Longrightarrow>
     length p = length cp + 1 + (r - rank) \<and> p \<noteq> [] \<and> last p = id_char i \<and>
     (r = rank \<and> i = s \<and> p = cp @ [id_char s]
      \<or> rank < r \<and> r \<le> m \<and> i < length ids \<and> ids ! i \<and> i \<noteq> s)"
proof (induction m ids s cp rank arbitrary: r i p rule: gc_paths.induct)
  case (1 m ids source current_path rank)
  let ?ids1 = "ids[source := False]" and ?np = "current_path @ [id_char source]"
  from "1.prems" consider
      (own) "r = rank" "i = source" "p = ?np"
    | (sub) j where "rank < m" "j < length ids" "?ids1 ! j"
        "(r, i, p) \<in> set (gc_paths m ?ids1 j ?np (rank + 1))"
    by (subst (asm) set_gc_paths) (auto split: if_splits)
  then show ?case
  proof cases
    case own
    then show ?thesis by simp
  next
    case sub
    from sub(2,3) have j: "ids ! j" "j \<noteq> source" by (auto dest: avail_after_update)
    have "length p = length ?np + 1 + (r - (rank + 1)) \<and> p \<noteq> [] \<and> last p = id_char i \<and>
     (r = rank + 1 \<and> i = j \<and> p = ?np @ [id_char j]
      \<or> rank + 1 < r \<and> r \<le> m \<and> i < length ?ids1 \<and> ?ids1 ! i \<and> i \<noteq> j)"
      by (rule "1.IH" [OF sub(1) _ sub(3) sub(4)]) (use sub(2) in simp)
    with sub(1,2) j show ?thesis
      by (auto dest: avail_after_update)
  qed
qed

lemma gc_paths_head: "(rank, s, cp @ [id_char s]) \<in> set (gc_paths m ids s cp rank)"
  by (subst set_gc_paths) simp

lemma gc_paths_parent:
  "(r, i, p) \<in> set (gc_paths m ids s cp rank) \<Longrightarrow> rank < r \<Longrightarrow>
     \<exists>k. (r - 1, k, butlast p) \<in> set (gc_paths m ids s cp rank)"
proof (induction m ids s cp rank arbitrary: r i p rule: gc_paths.induct)
  case (1 m ids source current_path rank)
  let ?ids1 = "ids[source := False]" and ?np = "current_path @ [id_char source]"
  from "1.prems" obtain j where sub: "rank < m" "j < length ids" "?ids1 ! j"
        "(r, i, p) \<in> set (gc_paths m ?ids1 j ?np (rank + 1))"
    by (subst (asm) set_gc_paths) (auto split: if_splits)
  have incl: "set (gc_paths m ?ids1 j ?np (rank + 1)) \<subseteq> set (gc_paths m ids source current_path rank)"
    using sub(1-3) by (subst (2) set_gc_paths) auto
  show ?case
  proof (cases "r = rank + 1")
    case True
    with gc_paths_shape [OF sub(4)] have "p = ?np @ [id_char j]" by auto
    then have "butlast p = ?np" by (simp only: butlast_snoc)
    with True gc_paths_head [of rank source current_path m ids] show ?thesis
      by (intro exI [of _ source]) simp
  next
    case False
    with gc_paths_shape [OF sub(4)] have "rank + 1 < r" by auto
    from "1.IH" [OF sub(1) _ sub(3) sub(4) this] sub(2)
    obtain k where "(r - 1, k, butlast p) \<in> set (gc_paths m ?ids1 j ?np (rank + 1))" by auto
    with incl show ?thesis by blast
  qed
qed

lemma gc_pushes_child:
  "(k, c) \<in> set (gc_pushes m ids s cp rank) \<Longrightarrow>
     \<exists>r j. rank < r \<and> c = k @ [id_char j] \<and> (r, j, c) \<in> set (gc_paths m ids s cp rank)"
proof (induction m ids s cp rank arbitrary: k c rule: gc_pushes.induct)
  case (1 m ids source current_path rank)
  let ?ids1 = "ids[source := False]" and ?np = "current_path @ [id_char source]"
  from "1.prems" obtain j where sub: "rank < m" "j < length ids" "?ids1 ! j"
     and kc: "(k, c) = (?np, ?np @ [id_char j]) \<or> (k, c) \<in> set (gc_pushes m ?ids1 j ?np (rank + 1))"
    by (subst (asm) set_gc_pushes) (auto split: if_splits)
  have incl: "set (gc_paths m ?ids1 j ?np (rank + 1)) \<subseteq> set (gc_paths m ids source current_path rank)"
    using sub(1-3) by (subst (2) set_gc_paths) auto
  from kc show ?case
  proof
    assume "(k, c) = (?np, ?np @ [id_char j])"
    with gc_paths_head [of "rank + 1" j ?np m ?ids1] incl show ?thesis
      by (intro exI [of _ "rank + 1"] exI [of _ j]) auto
  next
    assume "(k, c) \<in> set (gc_pushes m ?ids1 j ?np (rank + 1))"
    from "1.IH" [OF sub(1) _ sub(3) this] sub(2)
    obtain r j' where "rank + 1 < r" "c = k @ [id_char j']"
      "(r, j', c) \<in> set (gc_paths m ?ids1 j ?np (rank + 1))" by auto
    with incl show ?thesis by (intro exI [of _ r] exI [of _ j']) auto
  qed
qed

lemma push_path_apply:
  "push_path f r i p r' i' = (if r' = r \<and> i' = i then f r i @ [p] else f r' i')"
  by (simp add: push_path_def)

lemma add_paths_apply:
  "add_paths ps f r i = f r i @ map (\<lambda>x. snd (snd x)) (filter (\<lambda>x. fst x = r \<and> fst (snd x) = i) ps)"
  by (induction ps arbitrary: f) (auto simp: push_path_apply)

lemma set_add_paths:
  "set (add_paths ps f r i) = set (f r i) \<union> {p. (r, i, p) \<in> set ps}"
  by (force simp: add_paths_apply)

lemma map_of_push_child:
  "map_of (push_child al k p) k' =
     (if k' = k then Some ((case map_of al k of None \<Rightarrow> [] | Some v \<Rightarrow> v) @ [p]) else map_of al k')"
  by (induction al k p rule: push_child.induct) auto

lemma push_child_not_Nil [simp]: "push_child al k p \<noteq> []"
  by (cases al) (auto split: if_splits)

lemma map_of_touch_child:
  "map_of (touch_child al k) k' =
     (if k' = k then Some (case map_of al k of None \<Rightarrow> [] | Some v \<Rightarrow> v) else map_of al k')"
  by (induction al k rule: touch_child.induct) auto

lemma touch_child_not_Nil [simp]: "touch_child al k \<noteq> []"
  by (cases al) (auto split: if_splits)

lemma entry_step_not_Nil [simp]: "entry_step x al \<noteq> []"
  by (cases x, cases "snd x") simp_all

lemma add_entries_Nil_iff [simp]: "add_entries es al = [] \<longleftrightarrow> es = [] \<and> al = []"
  by (induction es arbitrary: al) auto

lemma pushes_of_simps [simp]:
  "pushes_of [] = []"
  "pushes_of ((k, Some c) # es) = (k, c) # pushes_of es"
  "pushes_of ((k, None) # es) = pushes_of es"
  "pushes_of (es @ fs) = pushes_of es @ pushes_of fs"
  by (simp_all add: pushes_of_def)

lemma pushes_of_concat: "pushes_of (concat (map F xs)) = concat (map (\<lambda>i. pushes_of (F i)) xs)"
  by (induction xs) simp_all

lemma map_of_add_entries:
  "map_of (add_entries es al) k =
     (if k \<in> fst ` set es \<or> map_of al k \<noteq> None
      then Some ((case map_of al k of None \<Rightarrow> [] | Some v \<Rightarrow> v)
                 @ map snd (filter (\<lambda>x. fst x = k) (pushes_of es)))
      else None)"
proof (induction es arbitrary: al)
  case Nil
  then show ?case by (auto split: option.splits)
next
  case (Cons x es)
  obtain k' c where x: "x = (k', c)" by (cases x)
  show ?case
    unfolding x
    by (cases c; cases "k' = k")
       (auto simp: Cons.IH map_of_push_child map_of_touch_child split: option.splits)
qed

lemma pushes_of_gc_entries: "pushes_of (gc_entries d m ids s cp rank) = gc_pushes m ids s cp rank"
proof (induction d m ids s cp rank rule: gc_entries.induct)
  case (1 d m ids source current_path rank)
  let ?ids1 = "ids[source := False]" and ?np = "current_path @ [id_char source]"
  have "concat (map (\<lambda>i. pushes_of (if ?ids1 ! i
            then gc_entries d m ?ids1 i ?np (rank + 1) @ [(?np, Some (?np @ [id_char i]))]
            else [])) [0..<length ids])
      = concat (map (\<lambda>i. if ?ids1 ! i
            then gc_pushes m ?ids1 i ?np (rank + 1) @ [(?np, ?np @ [id_char i])]
            else []) [0..<length ids])" if "rank < m"
    by (intro arg_cong [where f = concat] map_cong refl)
       (simp add: "1.IH" [OF that, unfolded Suc_eq_plus1 [symmetric]])
  then show ?case
    by (subst gc_entries.simps, subst gc_pushes.simps) (simp add: pushes_of_concat)
qed

lemma set_gc_entries:
  "set (gc_entries d m ids s cp rank) =
     (\<lambda>x. (fst x, Some (snd x))) ` set (gc_pushes m ids s cp rank)
     \<union> (if d then (\<lambda>x. (snd (snd x), None)) ` set (gc_paths m ids s cp rank) else {})"
proof (induction d m ids s cp rank rule: gc_entries.induct)
  case (1 d m ids source current_path rank)
  let ?ids1 = "ids[source := False]" and ?np = "current_path @ [id_char source]"
  show ?case
  proof (cases "rank < m")
    case False
    then show ?thesis
      by (subst gc_entries.simps, subst gc_pushes.simps, subst gc_paths.simps) simp
  next
    case True
    have IH: "set (gc_entries d m ?ids1 i ?np (rank + 1)) =
       (\<lambda>x. (fst x, Some (snd x))) ` set (gc_pushes m ?ids1 i ?np (rank + 1))
       \<union> (if d then (\<lambda>x. (snd (snd x), None)) ` set (gc_paths m ?ids1 i ?np (rank + 1)) else {})"
      if "i < length ids" "?ids1 ! i" for i
      using "1.IH" [OF True _ that(2)] that(1) by simp
    have "set (gc_entries d m ids source current_path rank) =
        (\<Union>i \<in> {i. i < length ids \<and> ?ids1 ! i}.
           insert (?np, Some (?np @ [id_char i])) (set (gc_entries d m ?ids1 i ?np (rank + 1))))
        \<union> (if d then {(?np, None)} else {})"
      using True by (subst gc_entries.simps) auto
    also have "(\<Union>i \<in> {i. i < length ids \<and> ?ids1 ! i}.
           insert (?np, Some (?np @ [id_char i])) (set (gc_entries d m ?ids1 i ?np (rank + 1))))
       = (\<Union>i \<in> {i. i < length ids \<and> ?ids1 ! i}.
           insert (?np, Some (?np @ [id_char i]))
             ((\<lambda>x. (fst x, Some (snd x))) ` set (gc_pushes m ?ids1 i ?np (rank + 1))
              \<union> (if d then (\<lambda>x. (snd (snd x), None)) ` set (gc_paths m ?ids1 i ?np (rank + 1)) else {})))"
    proof (intro SUP_cong refl)
      fix i
      assume "i \<in> {i. i < length ids \<and> ?ids1 ! i}"
      then have "i < length ids" "?ids1 ! i" by simp_all
      from IH [OF this] show "insert (?np, Some (?np @ [id_char i])) (set (gc_entries d m ?ids1 i ?np (rank + 1)))
        = insert (?np, Some (?np @ [id_char i]))
             ((\<lambda>x. (fst x, Some (snd x))) ` set (gc_pushes m ?ids1 i ?np (rank + 1))
              \<union> (if d then (\<lambda>x. (snd (snd x), None)) ` set (gc_paths m ?ids1 i ?np (rank + 1)) else {}))"
        by (simp only:)
    qed
    finally show ?thesis
      using True unfolding set_gc_pushes [of m ids source current_path rank]
        set_gc_paths [of m ids source current_path rank]
      by (auto simp: image_Un image_UN)
  qed
qed

lemma keys_gc_entries:
  "k \<in> fst ` set (gc_entries d m ids s cp rank) \<longleftrightarrow>
     k \<in> fst ` set (gc_pushes m ids s cp rank) \<or> d \<and> (\<exists>r i. (r, i, k) \<in> set (gc_paths m ids s cp rank))"
  unfolding set_gc_entries by force

lemma construct_prefix:
  "\<exists>k. (0 < j \<longrightarrow> 0 < k) \<and>
       fold (construct_step tr) [0..<j] (Topology_empty, []) =
         (apply_pushes (concat (replicate k (root_paths tr))) (if k = 0 then [] else root_entries tr)
            Topology_empty,
          map (Process_init tr) [0..<j])"
proof (induction j)
  case 0
  show ?case by (intro exI [of _ 0]) simp
next
  case (Suc j)
  then obtain k where k: "0 < j \<longrightarrow> 0 < k"
    and eq: "fold (construct_step tr) [0..<j] (Topology_empty, []) =
         (apply_pushes (concat (replicate k (root_paths tr))) (if k = 0 then [] else root_entries tr)
            Topology_empty,
          map (Process_init tr) [0..<j])" by blast
  let ?T = "apply_pushes (concat (replicate k (root_paths tr))) (if k = 0 then [] else root_entries tr) Topology_empty"
  have step: "fold (construct_step tr) [0..<Suc j] (Topology_empty, []) =
     (fst (Process_ctor tr j ?T), map (Process_init tr) [0..<j] @ [snd (Process_ctor tr j ?T)])"
    by (simp add: eq construct_step_def Let_def)
  have proc: "snd (Process_ctor tr j ?T) = Process_init tr j"
    by (simp add: Process_ctor_def Process_init_def Let_def)
  have rep: "concat (replicate k xs) @ xs = concat (replicate (Suc k) xs)" for xs :: "(nat \<times> nat \<times> Path) list"
    by (induction k) auto
  show ?case
  proof (cases "mChildren ?T = []")
    case True
    then have cs: "(if k = 0 then [] else root_entries tr) = []"
      by (simp add: apply_pushes_def Topology_empty_def)
    have "fst (Process_ctor tr j ?T) =
            apply_pushes (root_paths tr) (root_entries tr) ?T"
      using True by (simp add: Process_ctor_def Let_def GenerateChildren_pushes(1) root_paths_def root_entries_def)
    also have "\<dots> = apply_pushes (concat (replicate (Suc k) (root_paths tr))) (root_entries tr) Topology_empty"
      unfolding cs apply_pushes_append rep by simp
    finally show ?thesis
      unfolding step proc by (intro exI [of _ "Suc k"]) simp
  next
    case False
    then have k0: "k \<noteq> 0" by (cases "k = 0") (auto simp: apply_pushes_def Topology_empty_def)
    from False have "fst (Process_ctor tr j ?T) = ?T"
      by (simp add: Process_ctor_def Let_def)
    with k0 show ?thesis
      unfolding step proc by (intro exI [of _ k]) simp
  qed
qed

lemma construct_eq:
  assumes "0 < mN tr"
  shows "\<exists>k>0. construct tr =
           (apply_pushes (concat (replicate k (root_paths tr))) (root_entries tr) Topology_empty,
            map (Process_init tr) [0..<mN tr])"
proof -
  from construct_prefix [of "mN tr" tr] assms obtain k where "0 < k"
    "construct tr = (apply_pushes (concat (replicate k (root_paths tr))) (if k = 0 then [] else root_entries tr)
            Topology_empty, map (Process_init tr) [0..<mN tr])"
    unfolding construct_def by blast
  then show ?thesis by (intro exI [of _ k]) simp
qed

lemma construct_procs: "snd (construct tr) = map (Process_init tr) [0..<mN tr]"
  using construct_prefix [of "mN tr" tr] unfolding construct_def by auto

lemma construct_paths:
  assumes "0 < mN tr"
  shows "set (mPathsByRank (fst (construct tr)) r i) = {p. (r, i, p) \<in> set (root_paths tr)}"
proof -
  from construct_eq [OF assms] obtain k where "0 < k"
    and eq: "fst (construct tr) =
      apply_pushes (concat (replicate k (root_paths tr))) (root_entries tr) Topology_empty" by auto
  from \<open>0 < k\<close> have "set (concat (replicate k (root_paths tr))) = set (root_paths tr)"
    by (cases k) auto
  then show ?thesis
    by (simp add: eq apply_pushes_def set_add_paths Topology_empty_def)
qed

lemma construct_children:
  assumes "0 < mN tr"
  shows "map_of (mChildren (fst (construct tr))) P =
           (if P \<in> fst ` set (root_pushes tr) \<or> mDebug tr \<and> (\<exists>r i. (r, i, P) \<in> set (root_paths tr))
            then Some (map snd (filter (\<lambda>x. fst x = P) (root_pushes tr))) else None)"
proof -
  from construct_eq [OF assms] obtain k where
    eq: "fst (construct tr) =
      apply_pushes (concat (replicate k (root_paths tr))) (root_entries tr) Topology_empty" by auto
  have ps: "pushes_of (root_entries tr) = root_pushes tr"
    by (simp add: root_entries_def root_pushes_def pushes_of_gc_entries)
  have ks: "P \<in> fst ` set (root_entries tr) \<longleftrightarrow>
     P \<in> fst ` set (root_pushes tr) \<or> mDebug tr \<and> (\<exists>r i. (r, i, P) \<in> set (root_paths tr))"
    unfolding root_entries_def root_pushes_def root_paths_def by (rule keys_gc_entries)
  show ?thesis
    unfolding eq apply_pushes_def
    by (simp add: map_of_add_entries ps ks Topology_empty_def del: image_iff)
qed

lemma construct_children_of:
  assumes "0 < mN tr"
  shows "children_of (fst (construct tr)) P = map snd (filter (\<lambda>x. fst x = P) (root_pushes tr))"
proof -
  have "filter (\<lambda>x. fst x = P) (root_pushes tr) = []" if "P \<notin> fst ` set (root_pushes tr)"
    using that by (auto simp: filter_empty_conv)
  then show ?thesis
    by (auto simp: children_of_def construct_children [OF assms])
qed

lemma root_paths_shape:
  assumes "mSource tr < mN tr" "(r, i, p) \<in> set (root_paths tr)"
  shows "length p = r + 1" "r \<le> mM tr" "i < mN tr" "last p = id_char i"
    "r = 0 \<or> i = mSource tr \<Longrightarrow> r = 0 \<and> i = mSource tr \<and> p = [id_char (mSource tr)]"
  using gc_paths_shape [OF assms(2) [unfolded root_paths_def]] assms(1) by auto

lemma construct_topo_ok:
  assumes "mSource tr < mN tr"
  shows "topo_ok tr (fst (construct tr))"
proof -
  from assms have n: "0 < mN tr" by simp
  note ps = construct_paths [OF n]
  have a: "length P = r + 1 \<and> r \<le> mM tr \<and> i < mN tr \<and> last P = id_char i"
    if "P \<in> set (mPathsByRank (fst (construct tr)) r i)" for r i P
    using that root_paths_shape(1-4) [OF assms, of r i P] by (simp add: ps)
  have b: "r = 0 \<and> i = mSource tr \<and> P = [id_char (mSource tr)]"
    if "P \<in> set (mPathsByRank (fst (construct tr)) r i)" "r = 0 \<or> i = mSource tr" for r i P
  proof -
    from that(1) have "(r, i, P) \<in> set (root_paths tr)" by (simp add: ps)
    from root_paths_shape(5) [OF assms this that(2)] show ?thesis .
  qed
  have "[id_char (mSource tr)] \<in> set (mPathsByRank (fst (construct tr)) 0 (mSource tr))"
    using gc_paths_head [of 0 "mSource tr" "[]" "mM tr" "replicate (mN tr) True"]
    by (simp add: ps root_paths_def)
  then have c: "mPathsByRank (fst (construct tr)) 0 (mSource tr) \<noteq> []" by auto
  have d: "\<exists>k<mN tr. butlast P \<in> set (mPathsByRank (fst (construct tr)) r k)"
    if "P \<in> set (mPathsByRank (fst (construct tr)) (Suc r) i)" for r i P
  proof -
    from that have "(Suc r, i, P) \<in> set (root_paths tr)" by (simp add: ps)
    from gc_paths_parent [OF this [unfolded root_paths_def]]
    obtain k where k: "(r, k, butlast P) \<in> set (root_paths tr)" by (auto simp: root_paths_def)
    from root_paths_shape(3) [OF assms k] k show ?thesis by (auto simp: ps)
  qed
  have e: "\<exists>j<mN tr. c \<in> set (mPathsByRank (fst (construct tr)) (length P) j)"
    if "c \<in> set (children_of (fst (construct tr)) P)" for P c
  proof -
    from that have "(P, c) \<in> set (root_pushes tr)"
      by (auto simp: construct_children_of [OF n])
    from gc_pushes_child [OF this [unfolded root_pushes_def]]
    obtain r j where rj: "c = P @ [id_char j]" "(r, j, c) \<in> set (root_paths tr)"
      by (auto simp: root_paths_def)
    from root_paths_shape(1,3) [OF assms rj(2)] rj(1) have "r = length P" "j < mN tr" by auto
    with rj(2) show ?thesis by (auto simp: ps)
  qed
  from a b c d e show ?thesis unfolding topo_ok_def by blast
qed

section \<open>The shape of the tree\<close>

lemma mod_small_wrap: "k < 2 * n \<Longrightarrow> (k::nat) mod n = (if k < n then k else k - n)"
  by (simp add: le_mod_geq)

lemma id_char_inj: "i < 256 \<Longrightarrow> j < 256 \<Longrightarrow> id_char i = id_char j \<longleftrightarrow> i = j"
proof -
  assume a: "i < 256" "j < 256"
  have "(i + 48) mod 256 = (j + 48) mod 256 \<longleftrightarrow> i = j"
    using a by (simp add: mod_small_wrap [of _ 256] split: if_splits) arith
  then show ?thesis by (simp only: id_char_def char_of_quasi_inj)
qed

lemma call_ok_root: "n \<le> 256 \<Longrightarrow> call_ok n (replicate n True) []"
  by (simp add: call_ok_def)

lemma call_ok_step:
  assumes "call_ok n ids cp" "s < n" "ids ! s"
  shows "call_ok n (ids[s := False]) (cp @ [id_char s])"
proof -
  from assms have len: "length ids = n" and n: "n \<le> 256" and d: "distinct cp"
    and sub: "set cp \<subseteq> id_char ` {..<n}"
    and av: "\<And>j. j < n \<Longrightarrow> ids ! j \<longleftrightarrow> id_char j \<notin> set cp"
    by (auto simp: call_ok_def)
  from av [OF assms(2)] assms(3) have "id_char s \<notin> set cp" by simp
  moreover have "ids[s := False] ! j \<longleftrightarrow> id_char j \<notin> set (cp @ [id_char s])" if "j < n" for j
  proof (cases "j = s")
    case True
    with len that show ?thesis by simp
  next
    case False
    with id_char_inj [of j s] that assms(2) n have "id_char j \<noteq> id_char s" by simp
    with False av [OF that] show ?thesis by simp
  qed
  ultimately show ?thesis
    using len n d sub assms(2) by (auto simp: call_ok_def)
qed

lemma avail_count:
  assumes "n \<le> 256" "distinct P" "set P \<subseteq> id_char ` {..<n}"
  shows "length (filter (\<lambda>j. id_char j \<notin> set P) [0..<n]) = n - length P"
proof -
  have inj: "inj_on id_char {..<n}"
    using assms(1) by (intro inj_onI) (simp add: id_char_inj)
  let ?A = "{j. j < n \<and> id_char j \<in> set P}"
  have "id_char ` ?A = set P" using assms(3) by auto
  moreover have "inj_on id_char ?A" by (rule inj_on_subset [OF inj]) auto
  ultimately have "card ?A = card (set P)" by (metis card_image)
  with assms(2) have cA: "card ?A = length P" by (simp add: distinct_card)
  have "length (filter (\<lambda>j. id_char j \<notin> set P) [0..<n]) = card {j. j < n \<and> id_char j \<notin> set P}"
    by (simp add: length_filter_conv_card cong: conj_cong)
  also have "{j. j < n \<and> id_char j \<notin> set P} = {..<n} - ?A" by auto
  also have "card ({..<n} - ?A) = card {..<n} - card ?A"
    by (intro card_Diff_subset) auto
  finally show ?thesis by (simp add: cA)
qed

lemma gc_pushes_key_prefix:
  "(k, c) \<in> set (gc_pushes m ids s cp rank) \<Longrightarrow> \<exists>w. k = (cp @ [id_char s]) @ w"
proof (induction m ids s cp rank arbitrary: k c rule: gc_pushes.induct)
  case (1 m ids source current_path rank)
  let ?ids1 = "ids[source := False]" and ?np = "current_path @ [id_char source]"
  from "1.prems" obtain j where sub: "rank < m" "j < length ids" "?ids1 ! j"
     and kc: "(k, c) = (?np, ?np @ [id_char j]) \<or> (k, c) \<in> set (gc_pushes m ?ids1 j ?np (rank + 1))"
    by (subst (asm) set_gc_pushes) (auto split: if_splits)
  from kc show ?case
  proof
    assume "(k, c) = (?np, ?np @ [id_char j])"
    then show ?thesis by (intro exI [of _ "[]"]) simp
  next
    assume "(k, c) \<in> set (gc_pushes m ?ids1 j ?np (rank + 1))"
    from "1.IH" [OF sub(1) _ sub(3) this] sub(2)
    obtain w where "k = (?np @ [id_char j]) @ w" by auto
    then show ?thesis by (intro exI [of _ "id_char j # w"]) simp
  qed
qed

lemma kids_simps [simp]:
  "kids P [] = []"
  "kids P (x # ps) = (if fst x = P then snd x # kids P ps else kids P ps)"
  "kids P (ps @ qs) = kids P ps @ kids P qs"
  by (simp_all add: kids_def)

lemma kids_concat: "kids P (concat (map F xs)) = concat (map (\<lambda>i. kids P (F i)) xs)"
  by (induction xs) simp_all

lemma kids_empty: "P \<notin> keys ps \<Longrightarrow> kids P ps = []"
  by (auto simp: kids_def keys_def filter_empty_conv)

lemma concat_single:
  "distinct xs \<Longrightarrow> i0 \<in> set xs \<Longrightarrow> \<forall>i \<in> set xs. i \<noteq> i0 \<longrightarrow> G i = [] \<Longrightarrow>
     concat (map G xs) = G i0"
proof (induction xs)
  case Nil
  then show ?case by simp
next
  case (Cons x xs)
  show ?case
  proof (cases "x = i0")
    case True
    with Cons.prems have "\<forall>i \<in> set xs. G i = []" by auto
    then have "concat (map G xs) = []" by simp
    with True show ?thesis by simp
  next
    case False
    with Cons.prems have "G x = []" "i0 \<in> set xs" by auto
    with Cons.IH Cons.prems show ?thesis by simp
  qed
qed

lemma keys_gc_pushes:
  "keys (gc_pushes m ids s cp rank) =
     (if rank < m
      then (\<Union>i \<in> {i. i < length ids \<and> ids[s := False] ! i}.
              insert (cp @ [id_char s]) (keys (gc_pushes m (ids[s := False]) i (cp @ [id_char s]) (rank + 1))))
      else {})"
  unfolding keys_def by (subst set_gc_pushes) (simp add: image_UN)

lemma key_mem:
  "k \<in> keys (gc_pushes m ids s cp rank) \<longleftrightarrow>
     rank < m \<and> (\<exists>i<length ids. ids[s := False] ! i \<and>
        (k = cp @ [id_char s] \<or> k \<in> keys (gc_pushes m (ids[s := False]) i (cp @ [id_char s]) (rank + 1))))"
  by (subst keys_gc_pushes) auto

lemma gc_pushes_unfold:
  "rank < m \<Longrightarrow> gc_pushes m ids s cp rank =
     concat (map (\<lambda>i. if ids[s := False] ! i
                       then gc_pushes m (ids[s := False]) i (cp @ [id_char s]) (rank + 1)
                            @ [(cp @ [id_char s], (cp @ [id_char s]) @ [id_char i])]
                       else []) [0..<length ids])"
  by (subst gc_pushes.simps) simp

lemma key_prefix: "k \<in> keys (gc_pushes m ids s cp rank) \<Longrightarrow> \<exists>w. k = (cp @ [id_char s]) @ w"
  unfolding keys_def using gc_pushes_key_prefix by fastforce

lemma gc_pushes_kids:
  assumes "call_ok n ids cp" "s < n" "ids ! s"
  shows "kids P (gc_pushes m ids s cp rank) =
           (if P \<in> keys (gc_pushes m ids s cp rank) then expected_children n P else [])"
  using assms
proof (induction m ids s cp rank rule: gc_pushes.induct)
  case (1 m ids source current_path rank)
  let ?ids1 = "ids[source := False]" and ?np = "current_path @ [id_char source]"
  let ?sub = "\<lambda>i. gc_pushes m ?ids1 i ?np (Suc rank)"
  note S = Suc_eq_plus1 [symmetric]
  from "1.prems" have ok1: "call_ok n ?ids1 ?np" by (intro call_ok_step)
  from "1.prems"(1) have len: "length ids = n" and n: "n \<le> 256" by (auto simp: call_ok_def)
  from ok1 have avail: "\<And>j. j < n \<Longrightarrow> ?ids1 ! j \<longleftrightarrow> id_char j \<notin> set ?np"
    by (auto simp: call_ok_def)
  show ?case
  proof (cases "rank < m")
    case False
    then show ?thesis by (subst gc_pushes.simps, subst key_mem) simp
  next
    case True
    note unf = gc_pushes_unfold [OF True, of ids source current_path, unfolded len S]
    note ks = key_mem [of _ m ids source current_path rank, unfolded len S]
    have IH: "kids P (?sub i) = (if P \<in> keys (?sub i) then expected_children n P else [])"
      if "i < n" "?ids1 ! i" for i
      using that len by (intro "1.IH" [OF True _ that(2) ok1 that, unfolded S]) simp
    show ?thesis
    proof (cases "P = ?np")
      case Pnp: True
      have sub_none: "kids ?np (?sub i) = []" for i
      proof (rule kids_empty, rule notI)
        assume "?np \<in> keys (?sub i)"
        from key_prefix [OF this] show False by auto
      qed
      have "kids ?np (gc_pushes m ids source current_path rank) =
              concat (map (\<lambda>i. if ?ids1 ! i then [?np @ [id_char i]] else []) [0..<n])"
        unfolding unf kids_concat by (rule arg_cong [where f = concat]) (use sub_none in auto)
      also have "\<dots> = map (\<lambda>j. ?np @ [id_char j]) (filter (\<lambda>j. ?ids1 ! j) [0..<n])"
        by (induction n) simp_all
      also have "filter (\<lambda>j. ?ids1 ! j) [0..<n] = filter (\<lambda>j. id_char j \<notin> set ?np) [0..<n]"
        by (rule filter_cong [OF refl]) (simp add: avail)
      finally have k: "kids ?np (gc_pushes m ids source current_path rank) = expected_children n ?np"
        by (simp add: expected_children_def)
      have "expected_children n ?np = []" if "?np \<notin> keys (gc_pushes m ids source current_path rank)"
      proof -
        from that True have "\<forall>j<n. \<not> ?ids1 ! j" unfolding ks by blast
        with avail have "\<forall>j \<in> set [0..<n]. \<not> id_char j \<notin> set ?np" by auto
        then have "filter (\<lambda>j. id_char j \<notin> set ?np) [0..<n] = []"
          unfolding filter_empty_conv by blast
        then show ?thesis by (simp add: expected_children_def)
      qed
      with k Pnp show ?thesis by auto
    next
      case Pne: False
      let ?G = "\<lambda>i. if ?ids1 ! i then kids P (?sub i) else []"
      have kG: "kids P (gc_pushes m ids source current_path rank) = concat (map ?G [0..<n])"
        unfolding unf kids_concat using Pne by (intro arg_cong [where f = concat] map_cong) auto
      have key_iff: "P \<in> keys (gc_pushes m ids source current_path rank) \<longleftrightarrow>
                       (\<exists>i<n. ?ids1 ! i \<and> P \<in> keys (?sub i))"
        unfolding ks using True Pne by blast
      show ?thesis
      proof (cases "\<exists>i<n. ?ids1 ! i \<and> P \<in> keys (?sub i)")
        case False
        then have "\<forall>i \<in> set [0..<n]. ?G i = []" by (auto simp: IH)
        then have c: "concat (map ?G [0..<n]) = []" by simp
        from False key_iff have nk: "P \<notin> keys (gc_pushes m ids source current_path rank)" by blast
        have "kids P (gc_pushes m ids source current_path rank) = []" unfolding kG by (rule c)
        with nk show ?thesis by simp
      next
        case True
        then obtain i0 where i0: "i0 < n" "?ids1 ! i0" "P \<in> keys (?sub i0)" by blast
        from key_prefix [OF i0(3)] obtain w0 where w0: "P = (?np @ [id_char i0]) @ w0" by blast
        have "\<forall>i \<in> set [0..<n]. i \<noteq> i0 \<longrightarrow> ?G i = []"
        proof (intro ballI impI)
          fix i assume i: "i \<in> set [0..<n]" "i \<noteq> i0"
          have "P \<notin> keys (?sub i)"
          proof
            assume "P \<in> keys (?sub i)"
            from key_prefix [OF this] obtain w where "P = (?np @ [id_char i]) @ w" by blast
            with w0 have "id_char i = id_char i0" by simp
            with id_char_inj [of i i0] i i0(1) n show False by simp
          qed
          then show "?G i = []" by (simp add: kids_empty)
        qed
        with i0(1) have c: "concat (map ?G [0..<n]) = ?G i0"
          by (intro concat_single) simp_all
        from i0 key_iff have ink: "P \<in> keys (gc_pushes m ids source current_path rank)" by blast
        have "kids P (gc_pushes m ids source current_path rank) = ?G i0" unfolding kG by (rule c)
        also have "\<dots> = expected_children n P" using i0 IH [OF i0(1,2)] by simp
        finally show ?thesis using ink by simp
      qed
    qed
  qed
qed

lemma gc_pushes_keys_valid:
  assumes "call_ok n ids cp" "s < n" "ids ! s" "k \<in> keys (gc_pushes m ids s cp rank)"
  shows "distinct k \<and> set k \<subseteq> id_char ` {..<n}"
  using assms
proof (induction m ids s cp rank rule: gc_pushes.induct)
  case (1 m ids source current_path rank)
  let ?ids1 = "ids[source := False]" and ?np = "current_path @ [id_char source]"
  from "1.prems" have ok1: "call_ok n ?ids1 ?np" by (intro call_ok_step)
  from "1.prems"(1) have len: "length ids = n" by (auto simp: call_ok_def)
  from "1.prems"(4) obtain j where sub: "rank < m" "j < n" "?ids1 ! j"
    and k: "k = ?np \<or> k \<in> keys (gc_pushes m ?ids1 j ?np (rank + 1))"
    unfolding key_mem [of k m ids source current_path rank] len by blast
  from k show ?case
  proof
    assume "k = ?np"
    with ok1 show ?thesis by (simp add: call_ok_def)
  next
    assume "k \<in> keys (gc_pushes m ?ids1 j ?np (rank + 1))"
    with sub len show ?thesis by (intro "1.IH" [OF sub(1) _ sub(3) ok1 sub(2,3)]) simp_all
  qed
qed

lemma avail_card: "avail n ids = card {j. j < n \<and> ids ! j}"
  by (simp add: avail_def length_filter_conv_card cong: conj_cong)

lemma avail_update:
  assumes "length ids = n" "s < n" "ids ! s"
  shows "avail n (ids[s := False]) = avail n ids - 1" "0 < avail n ids"
proof -
  have "{j. j < n \<and> ids[s := False] ! j} = {j. j < n \<and> ids ! j} - {s}"
    using assms(1,2) by (auto simp: nth_list_update split: if_splits)
  moreover have "s \<in> {j. j < n \<and> ids ! j}" using assms by simp
  moreover have fin: "finite {j. j < n \<and> ids ! j}" by simp
  ultimately show "avail n (ids[s := False]) = avail n ids - 1"
    by (simp add: avail_card)
  from \<open>s \<in> {j. j < n \<and> ids ! j}\<close> fin show "0 < avail n ids"
    unfolding avail_card by (metis card_gt_0_iff empty_iff)
qed

lemma avail_pos: "0 < avail n ids \<Longrightarrow> \<exists>j<n. ids ! j"
  by (auto simp: avail_def filter_empty_conv)

lemma gc_paths_leaf_or_key:
  assumes "length ids = n" "s < n" "ids ! s" "avail n ids + rank = n" "length cp = rank"
    "rank \<le> m" "m < n"
    and "(r, i, p) \<in> set (gc_paths m ids s cp rank)"
  shows "p \<in> keys (gc_pushes m ids s cp rank) \<or> length p = m + 1"
  using assms
proof (induction m ids s cp rank rule: gc_paths.induct)
  case (1 m ids source current_path rank)
  let ?ids1 = "ids[source := False]" and ?np = "current_path @ [id_char source]"
  note len = "1.prems"(1)
  note av = avail_update [OF "1.prems"(1-3)]
  from "1.prems"(8) consider
      (own) "p = ?np"
    | (sub) j where "rank < m" "j < n" "?ids1 ! j"
        "(r, i, p) \<in> set (gc_paths m ?ids1 j ?np (rank + 1))"
    by (subst (asm) set_gc_paths) (auto simp: len split: if_splits)
  then show ?case
  proof cases
    case own
    show ?thesis
    proof (cases "rank < m")
      case False
      with "1.prems"(5,6) own show ?thesis by simp
    next
      case True
      with av "1.prems"(4,7) have "0 < avail n ?ids1" by simp
      from avail_pos [OF this] obtain j where "j < n" "?ids1 ! j" by blast
      with True own len show ?thesis
        unfolding key_mem [of p m ids source current_path rank] by blast
    qed
  next
    case sub
    from av "1.prems"(4) have "avail n ?ids1 + (rank + 1) = n" by simp
    with sub "1.prems"(5,7) len
    have "p \<in> keys (gc_pushes m ?ids1 j ?np (rank + 1)) \<or> length p = m + 1"
      by (intro "1.IH" [OF sub(1) _ sub(3) _ sub(2,3) _ _ _ _ sub(4)]) simp_all
    with sub(1-3) len show ?thesis
      unfolding key_mem [of p m ids source current_path rank] by blast
  qed
qed

lemma keys_length:
  assumes "k \<in> keys (gc_pushes m ids s cp rank)" "length cp = rank"
  shows "length k \<le> m"
proof -
  from assms(1) obtain c where "(k, c) \<in> set (gc_pushes m ids s cp rank)"
    by (auto simp: keys_def)
  from gc_pushes_child [OF this] obtain r j where rj: "rank < r" "c = k @ [id_char j]"
    "(r, j, c) \<in> set (gc_paths m ids s cp rank)" by blast
  from gc_paths_shape [OF rj(3)] rj(1) assms(2) have "length c = r + 1" "r \<le> m" by auto
  with rj(2) show ?thesis by simp
qed

lemma gc_paths_classes:
  assumes "call_ok n ids cp" "s < n" "ids ! s" "length cp = rank" "rank \<le> m"
    and "(r, i, p) \<in> set (gc_paths m ids s cp rank)"
  shows "(p \<in> keys (gc_pushes m ids s cp rank) \<or> length p = m + 1 \<or> expected_children n p = [])
         \<and> distinct p \<and> set p \<subseteq> id_char ` {..<n}"
  using assms
proof (induction m ids s cp rank rule: gc_paths.induct)
  case (1 m ids source current_path rank)
  let ?ids1 = "ids[source := False]" and ?np = "current_path @ [id_char source]"
  from "1.prems"(1-3) have ok1: "call_ok n ?ids1 ?np" by (intro call_ok_step)
  from "1.prems"(1) have len: "length ids = n" by (auto simp: call_ok_def)
  from "1.prems"(6) consider
      (own) "p = ?np"
    | (sub) j where "rank < m" "j < n" "?ids1 ! j"
        "(r, i, p) \<in> set (gc_paths m ?ids1 j ?np (rank + 1))"
    by (subst (asm) set_gc_paths) (auto simp: len split: if_splits)
  then show ?case
  proof cases
    case own
    from ok1 own have valid: "distinct p" "set p \<subseteq> id_char ` {..<n}"
      by (simp_all add: call_ok_def)
    show ?thesis
    proof (cases "rank < m")
      case False
      with "1.prems"(4,5) own valid show ?thesis by simp
    next
      case True
      show ?thesis
      proof (cases "\<exists>j<n. ?ids1 ! j")
        case True
        then obtain j where "j < n" "?ids1 ! j" by blast
        with \<open>rank < m\<close> own len valid show ?thesis
          unfolding key_mem [of p m ids source current_path rank] by blast
      next
        case False
        with ok1 own have "\<forall>j<n. id_char j \<in> set p" by (auto simp: call_ok_def)
        then have "expected_children n p = []"
          by (auto simp: expected_children_def filter_empty_conv)
        with valid show ?thesis by simp
      qed
    qed
  next
    case sub
    from sub "1.prems"(4) len
    have "(p \<in> keys (gc_pushes m ?ids1 j ?np (rank + 1)) \<or> length p = m + 1 \<or> expected_children n p = [])
         \<and> distinct p \<and> set p \<subseteq> id_char ` {..<n}"
      by (intro "1.IH" [OF sub(1) _ sub(3) ok1 sub(2,3) _ _ sub(4)]) simp_all
    with sub(1-3) len show ?thesis
      unfolding key_mem [of p m ids source current_path rank] by blast
  qed
qed

lemma avail_root: "avail n (replicate n True) = n"
proof -
  have "filter (\<lambda>j. replicate n True ! j) [0..<n] = [0..<n]"
    by (rule filter_True) simp
  then show ?thesis by (simp add: avail_def)
qed

lemma construct_children_kids:
  assumes "0 < mN tr"
  shows "map_of (mChildren (fst (construct tr))) P =
           (if P \<in> keys (root_pushes tr) \<or> mDebug tr \<and> (\<exists>r i. (r, i, P) \<in> set (root_paths tr))
            then Some (kids P (root_pushes tr)) else None)"
  unfolding construct_children [OF assms, of P] keys_def kids_def ..

text \<open>
  Claim C8, as stated, fails when \<open>mM\<close> is not below \<open>mN\<close>: the recursion stops where no
  id is left, so with two processes and \<open>mM = 2\<close> the path \<open>01\<close> of rank 1 gets no
  children entry although its length is 2, not \<open>mM + 1 = 3\<close>.
\<close>

theorem leaf_without_children_too_short:
  "mSource cfg_2_2 < mN cfg_2_2
   \<and> ''01'' \<in> set (mPathsByRank (fst (construct cfg_2_2)) 1 1)
   \<and> map_of (mChildren (fst (construct cfg_2_2))) ''01'' = None
   \<and> length ''01'' \<noteq> mM cfg_2_2 + 1"
proof -
  have "mPathsByRank (fst (construct cfg_2_2)) 1 1 = [''01'']" by code_simp
  moreover have "map_of (mChildren (fst (construct cfg_2_2))) ''01'' = None" by code_simp
  ultimately show ?thesis by (simp add: cfg_2_2_def)
qed

text \<open>
  Claim C8, amended.  After the constructors of a configuration with the source among
  the processes: if \<open>mM < mN\<close>, every path of \<open>mPathsByRank\<close> without a children entry
  has length \<open>mM + 1\<close>; and if \<open>mN\<close> is at most 256, so that different ids have different
  characters, every key \<open>P\<close> of \<open>mChildren\<close> is of one of two kinds.  Either \<open>P\<close> has at
  most \<open>mM\<close> characters, and then its children are the paths \<open>P\<close> extended by the
  character of \<open>j\<close>, for the ids \<open>j\<close> below \<open>mN\<close> in ascending order whose character is
  not in \<open>P\<close>, and there are \<open>mN\<close> minus the length of \<open>P\<close> of them.  Or \<open>P\<close> has
  \<open>mM + 1\<close> characters, \<open>mDebug\<close> is set and the entry is empty: it is the entry that the
  debug block of \<open>GenerateChildren\<close> creates when it reads the children of a leaf.  With
  \<open>mDebug\<close> not set, all keys are of the first kind.
\<close>

theorem tree_shape:
  assumes "mSource tr < mN tr"
  shows "(mM tr < mN tr \<longrightarrow>
           (\<forall>r i P. P \<in> set (mPathsByRank (fst (construct tr)) r i) \<longrightarrow>
              map_of (mChildren (fst (construct tr))) P = None \<longrightarrow> length P = mM tr + 1))
       \<and> (mN tr \<le> 256 \<longrightarrow>
           (\<forall>P cs. map_of (mChildren (fst (construct tr))) P = Some cs \<longrightarrow>
              (if length P \<le> mM tr
               then cs = map (\<lambda>j. P @ [id_char j]) (filter (\<lambda>j. id_char j \<notin> set P) [0..<mN tr])
                    \<and> length cs = mN tr - length P
               else mDebug tr \<and> length P = mM tr + 1 \<and> cs = [])))"
proof (intro conjI allI impI)
  from assms(1) have n: "0 < mN tr" by simp
  have src: "replicate (mN tr) True ! mSource tr" using assms(1) by simp
  {
    fix r i P
    assume m: "mM tr < mN tr"
      and P: "P \<in> set (mPathsByRank (fst (construct tr)) r i)"
      and none: "map_of (mChildren (fst (construct tr))) P = None"
    from P have "(r, i, P) \<in> set (gc_paths (mM tr) (replicate (mN tr) True) (mSource tr) [] 0)"
      by (simp add: construct_paths [OF n] root_paths_def)
    from gc_paths_leaf_or_key [OF _ assms(1) src _ _ _ m this]
    have "P \<in> keys (root_pushes tr) \<or> length P = mM tr + 1"
      by (simp add: root_pushes_def avail_root)
    with none show "length P = mM tr + 1"
      by (simp add: construct_children_kids [OF n] split: if_splits)
  }
  {
    fix P cs
    assume le: "mN tr \<le> 256" and some: "map_of (mChildren (fst (construct tr))) P = Some cs"
    note ok = call_ok_root [OF le]
    from some have ent: "P \<in> keys (root_pushes tr) \<or> mDebug tr \<and> (\<exists>r i. (r, i, P) \<in> set (root_paths tr))"
      and cs: "cs = kids P (root_pushes tr)"
      unfolding construct_children_kids [OF n] by (simp_all split: if_splits)
    let ?exp = "map (\<lambda>j. P @ [id_char j]) (filter (\<lambda>j. id_char j \<notin> set P) [0..<mN tr])"
    show "if length P \<le> mM tr
          then cs = ?exp \<and> length cs = mN tr - length P
          else mDebug tr \<and> length P = mM tr + 1 \<and> cs = []"
    proof (cases "P \<in> keys (root_pushes tr)")
      case True
      from gc_pushes_kids [OF ok assms(1) src, of P "mM tr" 0] True cs
      have eq: "cs = expected_children (mN tr) P" by (simp add: root_pushes_def)
      from gc_pushes_keys_valid [OF ok assms(1) src True [unfolded root_pushes_def]]
      have "distinct P" "set P \<subseteq> id_char ` {..<mN tr}" by simp_all
      from avail_count [OF le this] eq
      have len: "length cs = mN tr - length P" by (simp add: expected_children_def)
      from keys_length [OF True [unfolded root_pushes_def]] have "length P \<le> mM tr" by simp
      with eq len show ?thesis by (simp add: expected_children_def)
    next
      case False
      with ent obtain r i where d: "mDebug tr" and P: "(r, i, P) \<in> set (root_paths tr)" by blast
      from False cs have nil: "cs = []" by (simp add: kids_empty)
      from gc_paths_classes [OF ok assms(1) src _ _ P [unfolded root_paths_def]] False
      have cl: "length P = mM tr + 1 \<or> expected_children (mN tr) P = []"
        and valid: "distinct P" "set P \<subseteq> id_char ` {..<mN tr}"
        by (simp_all add: root_pushes_def)
      show ?thesis
      proof (cases "length P \<le> mM tr")
        case True
        with cl have e: "expected_children (mN tr) P = []" by simp
        with avail_count [OF le valid] have "mN tr - length P = 0"
          by (simp add: expected_children_def)
        with True e nil show ?thesis by (simp add: expected_children_def)
      next
        case False
        from root_paths_shape(1,2) [OF assms P] have "length P \<le> mM tr + 1" by simp
        with False d nil show ?thesis by simp
      qed
    qed
  }
qed

theorem tree_shape_witness:
  "mSource mTraits < mN mTraits \<and> mM mTraits < mN mTraits \<and> mN mTraits \<le> 256
   \<and> ''301'' \<in> set (mPathsByRank (fst (construct mTraits)) 2 1)
   \<and> map_of (mChildren (fst (construct mTraits))) ''301'' = None
   \<and> length ''301'' = mM mTraits + 1
   \<and> map_of (mChildren (fst (construct mTraits))) ''30''
        = Some [''301'', ''302'', ''304'', ''305'', ''306'']
   \<and> length ''30'' \<le> mM mTraits
   \<and> [''301'', ''302'', ''304'', ''305'', ''306'']
        = map (\<lambda>j. ''30'' @ [id_char j]) (filter (\<lambda>j. id_char j \<notin> set ''30'') [0..<mN mTraits])
   \<and> length [''301'', ''302'', ''304'', ''305'', ''306''] = mN mTraits - length ''30''
   \<and> mSource cfg_debug < mN cfg_debug \<and> mN cfg_debug \<le> 256
   \<and> map_of (mChildren (fst (construct cfg_debug))) ''301'' = Some []
   \<and> mM cfg_debug < length ''301''
   \<and> mDebug cfg_debug \<and> length ''301'' = mM cfg_debug + 1"
proof -
  have h: "mSource mTraits < mN mTraits" "mM mTraits < mN mTraits" "mN mTraits \<le> 256"
    by (simp_all add: mTraits_def)
  have g: "mSource cfg_debug < mN cfg_debug" "mN cfg_debug \<le> 256" "mM cfg_debug < length ''301''"
    "\<not> length ''301'' \<le> mM cfg_debug"
    by (simp_all add: cfg_debug_def)
  have leaf: "''301'' \<in> set (mPathsByRank (fst (construct mTraits)) 2 1)" by code_simp
  have none: "map_of (mChildren (fst (construct mTraits))) ''301'' = None" by code_simp
  have some: "map_of (mChildren (fst (construct mTraits))) ''30''
        = Some [''301'', ''302'', ''304'', ''305'', ''306'']" by code_simp
  have inner: "length ''30'' \<le> mM mTraits" by (simp add: mTraits_def)
  have dbg: "map_of (mChildren (fst (construct cfg_debug))) ''301'' = Some []" by code_simp
  from tree_shape [OF h(1)] h(2,3) have
    a: "\<And>r i P. P \<in> set (mPathsByRank (fst (construct mTraits)) r i) \<Longrightarrow>
            map_of (mChildren (fst (construct mTraits))) P = None \<Longrightarrow> length P = mM mTraits + 1"
    and b: "\<And>P cs. map_of (mChildren (fst (construct mTraits))) P = Some cs \<Longrightarrow>
            (if length P \<le> mM mTraits
             then cs = map (\<lambda>j. P @ [id_char j]) (filter (\<lambda>j. id_char j \<notin> set P) [0..<mN mTraits])
                  \<and> length cs = mN mTraits - length P
             else mDebug mTraits \<and> length P = mM mTraits + 1 \<and> cs = [])"
    by blast+
  from tree_shape [OF g(1)] g(2) have
    c: "\<And>P cs. map_of (mChildren (fst (construct cfg_debug))) P = Some cs \<Longrightarrow>
            (if length P \<le> mM cfg_debug
             then cs = map (\<lambda>j. P @ [id_char j]) (filter (\<lambda>j. id_char j \<notin> set P) [0..<mN cfg_debug])
                  \<and> length cs = mN cfg_debug - length P
             else mDebug cfg_debug \<and> length P = mM cfg_debug + 1 \<and> cs = [])"
    by blast
  note b' = b [OF some, unfolded if_P [OF inner]]
  note c' = c [OF dbg, unfolded if_not_P [OF g(4)]]
  from a [OF leaf none] b' c' h g(1-3) leaf none some inner dbg show ?thesis by blast
qed

lemma length_concat_two:
  assumes "a < b" "b < n"
  shows "length (G a) + length (G b) \<le> length (concat (map G [0..<n]))"
proof -
  have "length (concat (map G [0..<n])) = (\<Sum>i = 0..<n. length (G i))"
    by (simp add: length_concat comp_def interv_sum_list_conv_sum_set_nat)
  moreover have "(\<Sum>i \<in> {a, b}. length (G i)) \<le> (\<Sum>i = 0..<n. length (G i))"
    using assms by (intro sum_mono2) auto
  moreover have "(\<Sum>i \<in> {a, b}. length (G i)) = length (G a) + length (G b)"
    using assms by simp
  ultimately show ?thesis by simp
qed

lemma concat_if_filter: "concat (map (\<lambda>i. if Q i then [f i] else []) xs) = map f (filter Q xs)"
  by (induction xs) simp_all

lemma gc_pushes_last_level:
  assumes "rank < m" "\<not> rank + 1 < m"
  shows "length (kids (cp @ [id_char s]) (gc_pushes m ids s cp rank))
           = avail (length ids) (ids[s := False])"
proof -
  let ?ids1 = "ids[s := False]" and ?np = "cp @ [id_char s]"
  have sub: "gc_pushes m ?ids1 i ?np (rank + 1) = []" for i
    using assms(2) by (subst gc_pushes.simps) simp
  have "kids ?np (gc_pushes m ids s cp rank)
          = concat (map (\<lambda>i. if ?ids1 ! i then [?np @ [id_char i]] else []) [0..<length ids])"
    unfolding gc_pushes_unfold [OF assms(1)] kids_concat sub
    by (rule arg_cong [where f = concat]) auto
  also have "\<dots> = map (\<lambda>j. ?np @ [id_char j]) (filter (\<lambda>j. ?ids1 ! j) [0..<length ids])"
    by (rule concat_if_filter)
  finally show ?thesis by (simp add: avail_def)
qed

lemma id_char_256: "id_char 256 = id_char 0"
  by (simp add: id_char_def)

lemma id_char_0_1: "id_char 0 = CHR ''0''" "id_char 1 = CHR ''1''" "id_char (Suc 0) = CHR ''1''"
  by code_simp+

text \<open>
  Why the second part of the amended claim C8 is for at most 256 processes: the
  character of id 256 is that of id 0, so with 257 processes, \<open>mM = 2\<close> and source 1 the
  calls for the ids 0 and 256 below the root both push their children under the key
  \<open>10\<close>, which ends with at least 510 children instead of \<open>257 - 2\<close>.
\<close>

lemma children_at_257:
  "\<exists>cs. map_of (mChildren (fst (construct cfg_257))) ''10'' = Some cs \<and> 510 \<le> length cs"
proof -
  let ?ids0 = "replicate 257 True"
  let ?ids1 = "?ids0[1 := False]"
  let ?F = "\<lambda>i. if ?ids1 ! i
                 then gc_pushes 2 ?ids1 i ([] @ [id_char 1]) (0 + 1)
                      @ [([] @ [id_char 1], ([] @ [id_char 1]) @ [id_char i])]
                 else []"
  let ?K = "([] @ [id_char 1]) @ [id_char 0]"
  have K: "?K = ''10''" by (simp add: id_char_0_1)
  have root: "root_pushes cfg_257 = concat (map ?F [0..<257])"
    unfolding root_pushes_def cfg_257_def
    using gc_pushes_unfold [of 0 2 ?ids0 1 "[]"] by simp
  have a1: "avail 257 ?ids1 = 256"
    using avail_update(1) [of ?ids0 257 1] by (simp add: avail_root)
  have a0: "avail 257 (?ids1[0 := False]) = 255"
    using avail_update(1) [of ?ids1 257 0] a1 by simp
  have a256: "avail 257 (?ids1[256 := False]) = 255"
    using avail_update(1) [of ?ids1 257 256] a1 by simp
  have k0: "length (kids ?K (gc_pushes 2 ?ids1 0 ([] @ [id_char 1]) (0 + 1))) = 255"
    using gc_pushes_last_level [of "0 + 1" 2 "[] @ [id_char 1]" 0 ?ids1] a0 by simp
  have k256: "length (kids ?K (gc_pushes 2 ?ids1 256 ([] @ [id_char 1]) (0 + 1))) = 255"
    using gc_pushes_last_level [of "0 + 1" 2 "[] @ [id_char 1]" 256 ?ids1] a256
    by (simp add: id_char_256)
  have "length (kids ?K (?F 0)) + length (kids ?K (?F 256))
          \<le> length (concat (map (\<lambda>i. kids ?K (?F i)) [0..<257]))"
    by (rule length_concat_two) simp_all
  moreover have "255 \<le> length (kids ?K (?F 0))" using k0 by simp
  moreover have "255 \<le> length (kids ?K (?F 256))" using k256 by simp
  ultimately have len: "510 \<le> length (kids ?K (root_pushes cfg_257))"
    unfolding root kids_concat by linarith
  then have "kids ?K (root_pushes cfg_257) \<noteq> []" by auto
  then have "?K \<in> keys (root_pushes cfg_257)" using kids_empty by blast
  then have "map_of (mChildren (fst (construct cfg_257))) ?K = Some (kids ?K (root_pushes cfg_257))"
    by (subst construct_children_kids) (simp_all add: cfg_257_def)
  with len show ?thesis unfolding K by blast
qed

section \<open>The messaging rounds\<close>

lemma subscript_present: "ns p \<noteq> None \<Longrightarrow> subscript ns p = ns"
  by (auto simp: subscript_def)

lemma ReceiveMessage_twice [simp]:
  "ReceiveMessage (ReceiveMessage p path nd) path nd = ReceiveMessage p path nd"
  by (simp add: ReceiveMessage_def)

lemma length_fold_deliver [simp]: "length (fold (deliver tr ident P v) js ps) = length ps"
  by (induction js arbitrary: ps) (simp_all add: deliver_def)

lemma fold_deliver_nth:
  "j < length ps \<Longrightarrow>
   fold (deliver tr ident P v) js ps ! j =
     (if j \<in> set js \<and> j \<noteq> mSource tr
      then ReceiveMessage (ps ! j) P \<lparr>input_value = GetValue tr v ident j P, output_value = UNKNOWN\<rparr>
      else ps ! j)"
proof (induction js arbitrary: ps)
  case Nil
  then show ?case by simp
next
  case (Cons x js)
  have len: "j < length (deliver tr ident P v x ps)"
    using Cons.prems by (simp add: deliver_def)
  have step: "deliver tr ident P v x ps ! j =
     (if j = x \<and> j \<noteq> mSource tr
      then ReceiveMessage (ps ! j) P \<lparr>input_value = GetValue tr v ident j P, output_value = UNKNOWN\<rparr>
      else ps ! j)"
    using Cons.prems by (auto simp: deliver_def nth_list_update)
  have "fold (deliver tr ident P v) (x # js) ps ! j = fold (deliver tr ident P v) js (deliver tr ident P v x ps) ! j"
    by simp
  also have "\<dots> = (if j \<in> set js \<and> j \<noteq> mSource tr
      then ReceiveMessage (deliver tr ident P v x ps ! j) P \<lparr>input_value = GetValue tr v ident j P, output_value = UNKNOWN\<rparr>
      else deliver tr ident P v x ps ! j)"
    by (rule Cons.IH [OF len])
  also have "\<dots> = (if j \<in> set (x # js) \<and> j \<noteq> mSource tr
      then ReceiveMessage (ps ! j) P \<lparr>input_value = GetValue tr v ident j P, output_value = UNKNOWN\<rparr>
      else ps ! j)"
    unfolding step by simp
  finally show ?case .
qed

lemma length_send_path [simp]: "length (send_path tr self P ps) = length ps"
  by (simp add: send_path_def Let_def)

lemma send_path_nth:
  assumes "j < length ps"
  shows "send_path tr self P ps ! j =
     (let q = (if j = self then (ps ! j)\<lparr>mNodes := subscript (mNodes (ps ! j)) (butlast P)\<rparr> else ps ! j)
      in if j < mN tr \<and> j \<noteq> mSource tr
         then ReceiveMessage q P
                \<lparr>input_value = GetValue tr (input_value (node_at (mNodes (ps ! self)) (butlast P)))
                                 (mId (ps ! self)) j P,
                 output_value = UNKNOWN\<rparr>
         else q)"
  using assms by (auto simp: send_path_def Let_def fold_deliver_nth nth_list_update)

lemma send_path_inv:
  assumes inv: "run_inv tr D ps" and self: "self < mN tr" and src: "mSource tr < mN tr"
    and par: "if self = mSource tr then butlast P = [] else butlast P \<in> D"
  shows "run_inv tr (insert P D) (send_path tr self P ps)"
proof -
  from inv have len: "length ps = mN tr" and ids: "\<And>j. j < mN tr \<Longrightarrow> mId (ps ! j) = j"
    and seed: "mNodes (ps ! mSource tr) = seed_nodes"
    and doms: "\<And>j. j < mN tr \<Longrightarrow> j \<noteq> mSource tr \<Longrightarrow> dom (mNodes (ps ! j)) = D"
    and outs: "\<And>j Q nd. j < mN tr \<Longrightarrow> mNodes (ps ! j) Q = Some nd \<Longrightarrow> output_value nd = UNKNOWN"
    unfolding run_inv_def by blast+
  have sub: "subscript (mNodes (ps ! self)) (butlast P) = mNodes (ps ! self)"
  proof (cases "self = mSource tr")
    case True
    with par seed show ?thesis by (intro subscript_present) (simp add: seed_nodes_def)
  next
    case False
    with par doms [OF self] have "butlast P \<in> dom (mNodes (ps ! self))" by simp
    then show ?thesis by (intro subscript_present) auto
  qed
  have same: "(if j = self then (ps ! j)\<lparr>mNodes := subscript (mNodes (ps ! j)) (butlast P)\<rparr> else ps ! j) = ps ! j" for j
    using sub by simp
  have nth: "send_path tr self P ps ! j =
     (if j \<noteq> mSource tr
      then ReceiveMessage (ps ! j) P
                \<lparr>input_value = GetValue tr (input_value (node_at (mNodes (ps ! self)) (butlast P)))
                                 (mId (ps ! self)) j P,
                 output_value = UNKNOWN\<rparr>
      else ps ! j)" if "j < mN tr" for j
    using that len by (simp add: send_path_nth Let_def same del: One_nat_def)
  have outs': "output_value nd = UNKNOWN"
    if "j < mN tr" "mNodes (send_path tr self P ps ! j) Q = Some nd" for j Q nd
    using that outs [of j Q nd] by (auto simp: nth ReceiveMessage_def split: if_splits)
  show ?thesis
    unfolding run_inv_def
  proof (intro conjI allI impI)
    show "length (send_path tr self P ps) = mN tr" using len by simp
    show "mNodes (send_path tr self P ps ! mSource tr) = seed_nodes"
      using seed src by (simp add: nth)
  next
    fix j assume "j < mN tr"
    then show "mId (send_path tr self P ps ! j) = j"
      using ids by (simp add: nth ReceiveMessage_def)
  next
    fix j assume "j < mN tr" "j \<noteq> mSource tr"
    then show "dom (mNodes (send_path tr self P ps ! j)) = insert P D"
      using doms by (simp add: nth ReceiveMessage_def)
  next
    fix j Q nd assume "j < mN tr" "mNodes (send_path tr self P ps ! j) Q = Some nd"
    then show "output_value nd = UNKNOWN" by (rule outs')
  qed
qed

lemma fold_send_path_inv:
  assumes "run_inv tr D ps" "self < mN tr" "mSource tr < mN tr"
    and "\<forall>P \<in> set L. if self = mSource tr then butlast P = [] else butlast P \<in> D"
  shows "run_inv tr (D \<union> set L) (fold (send_path tr self) L ps)"
  using assms
proof (induction L arbitrary: D ps)
  case Nil
  then show ?case by simp
next
  case (Cons P L)
  from Cons.prems have "run_inv tr (insert P D) (send_path tr self P ps)"
    by (intro send_path_inv) auto
  moreover from Cons.prems(4)
  have "\<forall>Q \<in> set L. if self = mSource tr then butlast Q = [] else butlast Q \<in> insert P D" by auto
  ultimately have "run_inv tr (insert P D \<union> set L) (fold (send_path tr self) L (send_path tr self P ps))"
    using Cons.prems(2,3) by (intro Cons.IH)
  then show ?case by simp
qed

lemma SendMessages_inv:
  assumes "run_inv tr D ps" "self < mN tr" "mSource tr < mN tr"
    and "\<forall>P \<in> set (mPathsByRank T r self). if self = mSource tr then butlast P = [] else butlast P \<in> D"
  shows "run_inv tr (D \<union> set (mPathsByRank T r self)) (SendMessages tr T r self ps)"
proof -
  from assms(1,2) have "mId (ps ! self) = self" by (simp add: run_inv_def)
  with fold_send_path_inv [OF assms(1-3), of "mPathsByRank T r self"] assms(4)
  show ?thesis by (simp add: SendMessages_def)
qed

lemma senders_inv:
  assumes "run_inv tr D ps" "mSource tr < mN tr" "i \<le> mN tr"
    and "\<forall>self<mN tr. \<forall>P \<in> set (mPathsByRank T r self).
           if self = mSource tr then butlast P = [] else butlast P \<in> D"
  shows "run_inv tr (D \<union> {P. \<exists>self<i. P \<in> set (mPathsByRank T r self)})
           (fold (SendMessages tr T r) [0..<i] ps)"
  using assms(3)
proof (induction i)
  case 0
  with assms(1) show ?case by simp
next
  case (Suc i)
  let ?D = "D \<union> {P. \<exists>self<i. P \<in> set (mPathsByRank T r self)}"
  from Suc have inv: "run_inv tr ?D (fold (SendMessages tr T r) [0..<i] ps)" and i: "i < mN tr" by auto
  from assms(4) i
  have "\<forall>P \<in> set (mPathsByRank T r i). if i = mSource tr then butlast P = [] else butlast P \<in> ?D"
    by auto
  from SendMessages_inv [OF inv i assms(2) this]
  have "run_inv tr (?D \<union> set (mPathsByRank T r i)) (fold (SendMessages tr T r) [0..<Suc i] ps)"
    by simp
  moreover have "?D \<union> set (mPathsByRank T r i) = D \<union> {P. \<exists>self<Suc i. P \<in> set (mPathsByRank T r self)}"
    by (auto simp: less_Suc_eq)
  ultimately show ?case by simp
qed

lemma topo_ok_len:
  "topo_ok tr T \<Longrightarrow> P \<in> set (mPathsByRank T r i) \<Longrightarrow>
     length P = r + 1 \<and> r \<le> mM tr \<and> i < mN tr \<and> last P = id_char i"
  unfolding topo_ok_def by blast

lemma topo_ok_root:
  "topo_ok tr T \<Longrightarrow> P \<in> set (mPathsByRank T r i) \<Longrightarrow> r = 0 \<or> i = mSource tr \<Longrightarrow>
     r = 0 \<and> i = mSource tr \<and> P = [id_char (mSource tr)]"
  unfolding topo_ok_def by blast

lemma topo_ok_nonempty: "topo_ok tr T \<Longrightarrow> mPathsByRank T 0 (mSource tr) \<noteq> []"
  unfolding topo_ok_def by simp

lemma topo_ok_parent:
  "topo_ok tr T \<Longrightarrow> P \<in> set (mPathsByRank T (Suc r) i) \<Longrightarrow>
     \<exists>k<mN tr. butlast P \<in> set (mPathsByRank T r k)"
  unfolding topo_ok_def by blast

lemma topo_ok_child:
  "topo_ok tr T \<Longrightarrow> c \<in> set (children_of T P) \<Longrightarrow>
     \<exists>j<mN tr. c \<in> set (mPathsByRank T (length P) j)"
  unfolding topo_ok_def by blast

lemma topo_ok_hd: "topo_ok tr T \<Longrightarrow> hd (mPathsByRank T 0 (mSource tr)) = [id_char (mSource tr)]"
  using topo_ok_root [of tr T "hd (mPathsByRank T 0 (mSource tr))" 0 "mSource tr"]
    topo_ok_nonempty [of tr T] by simp

lemma parents_delivered:
  assumes "topo_ok tr T" "self < mN tr" "P \<in> set (mPathsByRank T r self)"
  shows "if self = mSource tr then butlast P = [] else butlast P \<in> paths_upto tr T r"
proof (cases "self = mSource tr")
  case True
  with topo_ok_root [OF assms(1,3)] have "P = [id_char (mSource tr)]" by simp
  with True show ?thesis by simp
next
  case False
  with topo_ok_root [OF assms(1,3)] have "r \<noteq> 0" by auto
  then obtain r' where r: "r = Suc r'" by (cases r) auto
  with topo_ok_parent [OF assms(1), of P r' self] assms(3)
  obtain k where "k < mN tr" "butlast P \<in> set (mPathsByRank T r' k)" by auto
  with r False show ?thesis by (auto simp: paths_upto_def)
qed

lemma paths_upto_Suc:
  "paths_upto tr T (Suc k) = paths_upto tr T k \<union> {P. \<exists>self<mN tr. P \<in> set (mPathsByRank T k self)}"
  by (auto simp: paths_upto_def less_Suc_eq)

lemma init_inv: "mSource tr < mN tr \<Longrightarrow> run_inv tr {} (map (Process_init tr) [0..<mN tr])"
  by (auto simp: run_inv_def Process_init_def seed_nodes_def GetSourceValue_def split: if_splits)

lemma rounds_inv:
  assumes "topo_ok tr T" "mSource tr < mN tr"
  shows "run_inv tr (paths_upto tr T k)
           (fold (run_round tr T) [0..<k] (map (Process_init tr) [0..<mN tr]))"
proof (induction k)
  case 0
  from init_inv [OF assms(2)] show ?case by (simp add: paths_upto_def)
next
  case (Suc k)
  have "\<forall>self<mN tr. \<forall>P \<in> set (mPathsByRank T k self).
           if self = mSource tr then butlast P = [] else butlast P \<in> paths_upto tr T k"
    using parents_delivered [OF assms(1)] by blast
  from senders_inv [OF Suc assms(2) le_refl this]
  show ?case by (simp add: paths_upto_Suc run_round_def)
qed

lemma senders_rounds_inv:
  assumes "topo_ok tr T" "mSource tr < mN tr" "i \<le> mN tr"
  shows "run_inv tr (paths_upto tr T k \<union> {P. \<exists>self<i. P \<in> set (mPathsByRank T k self)})
           (fold (SendMessages tr T k) [0..<i]
              (fold (run_round tr T) [0..<k] (map (Process_init tr) [0..<mN tr])))"
proof -
  have "\<forall>self<mN tr. \<forall>P \<in> set (mPathsByRank T k self).
           if self = mSource tr then butlast P = [] else butlast P \<in> paths_upto tr T k"
    using parents_delivered [OF assms(1)] by blast
  from senders_inv [OF rounds_inv [OF assms(1,2)] assms(2,3) this] show ?thesis .
qed

lemma main_run_inv:
  assumes "mSource tr < mN tr"
  shows "run_inv tr (paths_upto tr (fst (construct tr)) (mM tr + 1)) (snd (main_run tr))"
  using rounds_inv [OF construct_topo_ok [OF assms] assms, of "mM tr + 1"]
  by (simp add: main_run_def Let_def run_rounds_def construct_procs)

section \<open>The source\<close>

lemma run_inv_source: "run_inv tr D ps \<Longrightarrow> mNodes (ps ! mSource tr) = seed_nodes"
  by (simp add: run_inv_def)

lemma Decide_source:
  assumes "mId p = mSource tr" "mNodes p = seed_nodes"
  shows "Decide tr T p = (input_value GetSourceValue, p)"
  using assms by (simp add: Decide_def node_at_def subscript_def seed_nodes_def)

lemma fst_main_run [simp]: "fst (main_run tr) = fst (construct tr)"
  by (simp add: main_run_def Let_def)

text \<open>
  Claim C10.  The constructor gives the source exactly one node, at the empty path,
  holding the source value and \<open>UNKNOWN\<close>.  After any number of complete rounds followed
  by the \<open>SendMessages\<close> calls of any number of the first processes of the next round,
  the source's node map is still that map: no delivery goes to the source, and the
  source's own \<open>SendMessages\<close> reads the seeded entry without creating one.  \<open>Decide\<close>
  of the source after the run returns the seeded input value and leaves the process
  as it was.
\<close>

theorem source_nodes_never_change:
  assumes "mSource tr < mN tr"
  shows "mNodes (snd (construct tr) ! mSource tr) = Map.empty([] \<mapsto> GetSourceValue)
       \<and> (\<forall>k i. i \<le> mN tr \<longrightarrow>
             mNodes (fold (SendMessages tr (fst (construct tr)) k) [0..<i]
                       (fold (run_round tr (fst (construct tr))) [0..<k] (snd (construct tr)))
                     ! mSource tr) = Map.empty([] \<mapsto> GetSourceValue))
       \<and> Decide tr (fst (construct tr)) (snd (main_run tr) ! mSource tr)
           = (input_value GetSourceValue, snd (main_run tr) ! mSource tr)"
proof (intro conjI allI impI)
  show "mNodes (snd (construct tr) ! mSource tr) = Map.empty([] \<mapsto> GetSourceValue)"
    using assms by (simp add: construct_procs Process_init_def)
next
  fix k i assume "i \<le> mN tr"
  from senders_rounds_inv [OF construct_topo_ok [OF assms] assms this, of k]
  show "mNodes (fold (SendMessages tr (fst (construct tr)) k) [0..<i]
                       (fold (run_round tr (fst (construct tr))) [0..<k] (snd (construct tr)))
                     ! mSource tr) = Map.empty([] \<mapsto> GetSourceValue)"
    by (simp add: construct_procs run_inv_def seed_nodes_def)
next
  from main_run_inv [OF assms]
  have "mId (snd (main_run tr) ! mSource tr) = mSource tr"
    "mNodes (snd (main_run tr) ! mSource tr) = seed_nodes"
    using assms by (auto simp: run_inv_def)
  then show "Decide tr (fst (construct tr)) (snd (main_run tr) ! mSource tr)
           = (input_value GetSourceValue, snd (main_run tr) ! mSource tr)"
    by (rule Decide_source)
qed

lemma main_run_as_rounds:
  "snd (main_run tr) =
     fold (SendMessages tr (fst (construct tr)) (mM tr + 1)) [0..<0]
       (fold (run_round tr (fst (construct tr))) [0..<mM tr + 1] (snd (construct tr)))"
  by (simp add: main_run_def Let_def run_rounds_def)

theorem source_nodes_never_change_witness:
  "mSource mTraits < mN mTraits
   \<and> mNodes (snd (construct mTraits) ! mSource mTraits) = Map.empty([] \<mapsto> GetSourceValue)
   \<and> mNodes (snd (main_run mTraits) ! mSource mTraits) = Map.empty([] \<mapsto> GetSourceValue)
   \<and> Decide mTraits (fst (construct mTraits)) (snd (main_run mTraits) ! mSource mTraits)
       = (input_value GetSourceValue, snd (main_run mTraits) ! mSource mTraits)"
proof -
  have h: "mSource mTraits < mN mTraits" by (simp add: mTraits_def)
  note t = source_nodes_never_change [OF h]
  from t have a: "mNodes (snd (construct mTraits) ! mSource mTraits) = Map.empty([] \<mapsto> GetSourceValue)"
    by (rule conjunct1)
  from t have "\<forall>k i. i \<le> mN mTraits \<longrightarrow>
             mNodes (fold (SendMessages mTraits (fst (construct mTraits)) k) [0..<i]
                       (fold (run_round mTraits (fst (construct mTraits))) [0..<k] (snd (construct mTraits)))
                     ! mSource mTraits) = Map.empty([] \<mapsto> GetSourceValue)"
    by (elim conjE)
  then have "mNodes (fold (SendMessages mTraits (fst (construct mTraits)) (mM mTraits + 1)) [0..<0]
                       (fold (run_round mTraits (fst (construct mTraits))) [0..<mM mTraits + 1] (snd (construct mTraits)))
                     ! mSource mTraits) = Map.empty([] \<mapsto> GetSourceValue)"
    by (elim allE [of _ "mM mTraits + 1"] allE [of _ 0]) simp
  then have b: "mNodes (snd (main_run mTraits) ! mSource mTraits) = Map.empty([] \<mapsto> GetSourceValue)"
    by (simp only: main_run_as_rounds [symmetric])
  from t have c: "Decide mTraits (fst (construct mTraits)) (snd (main_run mTraits) ! mSource mTraits)
       = (input_value GetSourceValue, snd (main_run mTraits) ! mSource mTraits)"
    by (elim conjE)
  from h a b c show ?thesis by (intro conjI)
qed

text \<open>
  Claim C6.  For every configuration with the source among the processes, \<open>Decide\<close> of
  the source after the rounds returns the input value of the node the constructor seeded
  at the empty path, which is \<open>GetSourceValue()\<close>; what \<open>GetValue\<close> made the source send
  plays no part.  In the reference configuration the value is \<open>ZERO\<close>.
\<close>

theorem source_decides_seed:
  assumes "mSource tr < mN tr"
  shows "fst (Decide tr (fst (main_run tr)) (snd (main_run tr) ! mSource tr))
           = input_value (node_at (mNodes (snd (construct tr) ! mSource tr)) [])
       \<and> node_at (mNodes (snd (construct tr) ! mSource tr)) [] = GetSourceValue"
proof -
  from main_run_inv [OF assms]
  have "mId (snd (main_run tr) ! mSource tr) = mSource tr"
    "mNodes (snd (main_run tr) ! mSource tr) = seed_nodes"
    using assms by (auto simp: run_inv_def)
  then have "Decide tr (fst (construct tr)) (snd (main_run tr) ! mSource tr)
           = (input_value GetSourceValue, snd (main_run tr) ! mSource tr)"
    by (rule Decide_source)
  moreover have "node_at (mNodes (snd (construct tr) ! mSource tr)) [] = GetSourceValue"
    using assms by (simp add: construct_procs Process_init_def node_at_def)
  ultimately show ?thesis by simp
qed

theorem source_decides_seed_witness:
  "mSource mTraits < mN mTraits
   \<and> fst (Decide mTraits (fst (main_run mTraits)) (snd (main_run mTraits) ! mSource mTraits)) = ZERO"
proof -
  have h: "mSource mTraits < mN mTraits" by (simp add: mTraits_def)
  from source_decides_seed [OF h] h show ?thesis
    by (simp add: GetSourceValue_def)
qed

section \<open>The lookups of the decision phase\<close>

lemma dom_subscript [simp]: "dom (subscript ns P) = insert P (dom ns)"
  by (auto simp: subscript_def split: option.splits)

lemma dom_set_leaf [simp]: "dom (set_leaf P ns) = insert P (dom ns)"
  by (simp add: set_leaf_def Let_def)

lemma dom_fold_count_child [simp]:
  "dom (snd (fold count_child cs cn)) = dom (snd cn) \<union> set cs"
  by (induction cs arbitrary: cn) (auto simp: count_child_def Let_def)

lemma dom_GetMajority [simp]: "dom (snd (GetMajority T ns P)) = dom ns \<union> set (children_of T P)"
  by (simp add: GetMajority_def GetMajority_dflt_def Let_def)

lemma dom_set_internal [simp]:
  "dom (set_internal T P ns) = dom ns \<union> set (P # children_of T P)"
  by (auto simp: set_internal_def Let_def)

lemma dom_fold:
  assumes "\<And>x ns. dom (f x ns) = dom ns \<union> set (k x)"
  shows "dom (fold f xs ns) = dom ns \<union> set (concat (map k xs))"
  by (induction xs arbitrary: ns) (auto simp: assms)

lemma dom_leaf_pass: "dom (leaf_pass tr T ns) = dom ns \<union> set (leaf_keys tr T)"
proof -
  have "dom (leaf_ids T m i ns) = dom ns \<union> set (mPathsByRank T m i)" for m i ns
    unfolding leaf_ids_def by (subst dom_fold [where k = "\<lambda>P. [P]"]) auto
  then show ?thesis
    unfolding leaf_pass_def leaf_keys_def by (rule dom_fold)
qed

lemma dom_reduce_round: "dom (reduce_round tr T r ns) = dom ns \<union> set (round_keys tr T r)"
proof -
  have "dom (reduce_ids T r i ns) = dom ns \<union> set (concat (map (\<lambda>P. P # children_of T P) (mPathsByRank T r i)))" for i ns
    unfolding reduce_ids_def by (rule dom_fold) (rule dom_set_internal)
  then show ?thesis
    unfolding reduce_round_def round_keys_def by (rule dom_fold)
qed

lemma dom_Decide_nodes:
  "dom (Decide_nodes tr T ns) =
     dom ns \<union> set (leaf_keys tr T @ concat (map (round_keys tr T) (rev [0..<mM tr])))"
  unfolding Decide_nodes_def
  by (subst dom_fold [where k = "round_keys tr T"]) (auto simp: dom_reduce_round dom_leaf_pass)

lemma dom_Decide:
  "dom (mNodes (snd (Decide tr T p))) = dom (mNodes p) \<union> set (Decide_keys tr T p)"
  by (auto simp: Decide_def Decide_keys_def Let_def dom_Decide_nodes)

lemma paths_upto_all: "paths_upto tr T (Suc (mM tr)) = all_paths tr T"
  by (auto simp: paths_upto_def all_paths_def less_Suc_eq_le)

lemma Decide_keys_in_topology:
  assumes "topo_ok tr T" "mSource tr < mN tr" "mId p \<noteq> mSource tr"
  shows "set (Decide_keys tr T p) \<subseteq> all_paths tr T"
proof
  fix Q assume "Q \<in> set (Decide_keys tr T p)"
  with assms(3) consider
      (leaf) i where "i < mN tr" "Q \<in> set (mPathsByRank T (mM tr) i)"
    | (node) r i where "r < mM tr" "i < mN tr" "Q \<in> set (mPathsByRank T r i)"
    | (child) r i P where "r < mM tr" "i < mN tr" "P \<in> set (mPathsByRank T r i)" "Q \<in> set (children_of T P)"
    | (top) "Q = hd (mPathsByRank T 0 (mSource tr))"
    by (auto simp: Decide_keys_def leaf_keys_def round_keys_def)
  then show "Q \<in> all_paths tr T"
  proof cases
    case leaf
    then show ?thesis by (auto simp: all_paths_def)
  next
    case node
    then have "r \<le> mM tr" by simp
    with node show ?thesis unfolding all_paths_def by blast
  next
    case child
    from topo_ok_len [OF assms(1) child(3)] have len: "length P = r + 1" by simp
    from topo_ok_child [OF assms(1) child(4)] obtain j where
      "j < mN tr" "Q \<in> set (mPathsByRank T (length P) j)" by auto
    with len child(1) have "r + 1 \<le> mM tr" "j < mN tr" "Q \<in> set (mPathsByRank T (r + 1) j)"
      by simp_all
    then show ?thesis unfolding all_paths_def by blast
  next
    case top
    with topo_ok_nonempty [OF assms(1)] have "Q \<in> set (mPathsByRank T 0 (mSource tr))" by simp
    with assms(2) show ?thesis by (auto simp: all_paths_def)
  qed
qed

lemma main_run_dom:
  assumes "mSource tr < mN tr" "j < mN tr"
  shows "dom (mNodes (snd (main_run tr) ! j)) =
           (if j = mSource tr then {[]} else all_paths tr (fst (construct tr)))"
  using main_run_inv [OF assms(1)] assms(2)
  by (auto simp: run_inv_def paths_upto_all seed_nodes_def)

lemma main_run_mId:
  assumes "mSource tr < mN tr" "j < mN tr"
  shows "mId (snd (main_run tr) ! j) = j"
  using main_run_inv [OF assms(1)] assms(2) by (auto simp: run_inv_def)

text \<open>
  Claim C9.  \<open>mNodes[key]\<close> creates a node exactly when the key is missing, and
  \<open>Decide\<close> changes the key set in no other way (\<open>dom_Decide\<close>): the key set after
  \<open>Decide\<close> is the one before together with the keys accessed.  After the rounds of
  \<open>main\<close>, every key that \<open>Decide\<close> of a process accesses is already a key of its node
  map, so \<open>Decide\<close> leaves the key set as it is: no lookup of the decision phase misses.
  The nodes found are those the constructor seeded or \<open>ReceiveMessage\<close> stored: each has
  the output \<open>UNKNOWN\<close>, none is a default node that an access created.
\<close>

theorem decision_lookups_hit:
  assumes "mSource tr < mN tr" "j < mN tr"
  shows "set (Decide_keys tr (fst (main_run tr)) (snd (main_run tr) ! j))
           \<subseteq> dom (mNodes (snd (main_run tr) ! j))
       \<and> dom (mNodes (snd (Decide tr (fst (main_run tr)) (snd (main_run tr) ! j))))
           = dom (mNodes (snd (main_run tr) ! j))
       \<and> (\<forall>P nd. mNodes (snd (main_run tr) ! j) P = Some nd \<longrightarrow>
             output_value nd = UNKNOWN \<and> nd \<noteq> Node_default)"
proof -
  let ?T = "fst (construct tr)" and ?p = "snd (main_run tr) ! j"
  have keys: "set (Decide_keys tr ?T ?p) \<subseteq> dom (mNodes ?p)"
  proof (cases "j = mSource tr")
    case True
    with main_run_mId [OF assms] main_run_dom [OF assms] show ?thesis
      by (simp add: Decide_keys_def)
  next
    case False
    with main_run_mId [OF assms] have "mId ?p \<noteq> mSource tr" by simp
    from Decide_keys_in_topology [OF construct_topo_ok [OF assms(1)] assms(1) this]
      main_run_dom [OF assms] False
    show ?thesis by simp
  qed
  have out: "output_value nd = UNKNOWN" if "mNodes ?p P = Some nd" for P nd
    using main_run_inv [OF assms(1)] assms(2) that unfolding run_inv_def by blast
  have "output_value Node_default \<noteq> UNKNOWN"
    by (simp add: Node_default_def UNKNOWN_def FAULTY_def)
  with out have "\<forall>P nd. mNodes ?p P = Some nd \<longrightarrow> output_value nd = UNKNOWN \<and> nd \<noteq> Node_default"
    by metis
  with keys show ?thesis by (simp add: dom_Decide Un_absorb2)
qed

theorem decision_lookups_hit_witness:
  "mSource mTraits < mN mTraits \<and> (0::nat) < mN mTraits
   \<and> set (Decide_keys mTraits (fst (main_run mTraits)) (snd (main_run mTraits) ! 0))
           \<subseteq> dom (mNodes (snd (main_run mTraits) ! 0))
   \<and> dom (mNodes (snd (Decide mTraits (fst (main_run mTraits)) (snd (main_run mTraits) ! 0))))
           = dom (mNodes (snd (main_run mTraits) ! 0))"
proof -
  have h: "mSource mTraits < mN mTraits" "(0::nat) < mN mTraits" by (simp_all add: mTraits_def)
  from decision_lookups_hit [OF h] h show ?thesis by (intro conjI) simp_all
qed

section \<open>Who receives a path\<close>

lemma self_delivery_reference_eval:
  "mNodes (snd (main_run mTraits) ! 0) ''30'' = Some \<lparr>input_value = ONE, output_value = UNKNOWN\<rparr>"
  by code_simp

lemma paths_1_0_reference: "mPathsByRank (fst (construct mTraits)) (Suc 0) 0 = [''30'']"
  by code_simp

lemma id_char_0: "id_char 0 = CHR ''0''"
  by code_simp

text \<open>
  Claim C5, as stated, fails: the inner loop of \<open>SendMessages\<close> skips only
  \<open>j = mSource\<close>, so a sender that is not the source delivers its path to itself too.
  In the reference run process 0 sends the path \<open>30\<close> in round 1, and after the rounds
  its own node map holds the node it delivered, at a path whose last id is 0.
\<close>

theorem sender_receives_own_path:
  "''30'' \<in> set (mPathsByRank (fst (construct mTraits)) 1 0)
   \<and> last ''30'' = id_char 0
   \<and> mNodes (snd (main_run mTraits) ! 0) ''30'' = Some \<lparr>input_value = ONE, output_value = UNKNOWN\<rparr>"
  by (simp add: self_delivery_reference_eval paths_1_0_reference id_char_0)

text \<open>
  Claim C5, amended.  One iteration of the outer loop of \<open>SendMessages\<close>, by any sender
  on any process vector, stores the node for the path at every process other than the
  source, the sender included, and leaves the source's entry at that path alone.
  After the rounds of \<open>main\<close> the node map of every process other than the source has
  its keys exactly at the paths of the ranks 0 to \<open>mM\<close> (those ending in its own id
  among them), and the source's only key is the empty path.
\<close>

theorem deliveries_reach_all_but_source:
  assumes "mSource tr < mN tr" "j < mN tr" "length ps = mN tr"
  shows "(j \<noteq> mSource tr \<longrightarrow>
            mNodes (send_path tr self P ps ! j) P =
              Some \<lparr>input_value = GetValue tr (input_value (node_at (mNodes (ps ! self)) (butlast P)))
                                     (mId (ps ! self)) j P,
                    output_value = UNKNOWN\<rparr>)
       \<and> (j = mSource tr \<and> P \<noteq> [] \<longrightarrow>
            mNodes (send_path tr self P ps ! j) P = mNodes (ps ! j) P)
       \<and> dom (mNodes (snd (main_run tr) ! j)) =
            (if j = mSource tr then {[]} else all_paths tr (fst (construct tr)))"
proof (intro conjI impI)
  from assms have jl: "j < length ps" by simp
  note nth = send_path_nth [OF jl, of tr self P]
  {
    assume "j \<noteq> mSource tr"
    with assms(2) show "mNodes (send_path tr self P ps ! j) P =
              Some \<lparr>input_value = GetValue tr (input_value (node_at (mNodes (ps ! self)) (butlast P)))
                                     (mId (ps ! self)) j P,
                    output_value = UNKNOWN\<rparr>"
      unfolding nth Let_def by (simp add: ReceiveMessage_def)
  }
  {
    assume a: "j = mSource tr \<and> P \<noteq> []"
    then have ne: "butlast P \<noteq> P" by (cases P rule: rev_cases) auto
    have "mNodes (send_path tr self P ps ! j) P =
            (if j = self then subscript (mNodes (ps ! j)) (butlast P) P else mNodes (ps ! j) P)"
      unfolding nth Let_def using a by simp
    also have "\<dots> = mNodes (ps ! j) P"
      using ne by (simp add: subscript_def split: option.splits)
    finally show "mNodes (send_path tr self P ps ! j) P = mNodes (ps ! j) P" .
  }
  from main_run_dom [OF assms(1,2)]
  show "dom (mNodes (snd (main_run tr) ! j)) =
            (if j = mSource tr then {[]} else all_paths tr (fst (construct tr)))" .
qed

theorem deliveries_reach_all_but_source_witness:
  "mSource mTraits < mN mTraits \<and> (0::nat) < mN mTraits
   \<and> length (snd (construct mTraits)) = mN mTraits
   \<and> mNodes (send_path mTraits 0 ''30'' (snd (construct mTraits)) ! 0) ''30'' =
        Some \<lparr>input_value = GetValue mTraits
                  (input_value (node_at (mNodes (snd (construct mTraits) ! 0)) (butlast ''30'')))
                  (mId (snd (construct mTraits) ! 0)) 0 ''30'',
              output_value = UNKNOWN\<rparr>
   \<and> dom (mNodes (snd (main_run mTraits) ! 0)) = all_paths mTraits (fst (construct mTraits))"
proof -
  have h: "mSource mTraits < mN mTraits" "(0::nat) < mN mTraits"
    "length (snd (construct mTraits)) = mN mTraits" "(0::nat) \<noteq> mSource mTraits"
    by (simp_all add: mTraits_def construct_procs)
  from deliveries_reach_all_but_source [OF h(1-3), of 0 "''30''"] h show ?thesis
    by (intro conjI) simp_all
qed

section \<open>What \<open>Decide\<close> computes\<close>

lemma node_at_upd: "node_at (ns(P \<mapsto> nd)) Q = (if Q = P then nd else node_at ns Q)"
  by (simp add: node_at_def)

lemma node_at_set_leaf:
  "node_at (set_leaf P ns) Q =
     (if Q = P then (node_at ns P)\<lparr>output_value := input_value (node_at ns P)\<rparr> else node_at ns Q)"
  by (simp add: set_leaf_def Let_def node_at_upd)

lemma node_at_GetMajority [simp]: "node_at (snd (GetMajority T ns P)) Q = node_at ns Q"
  by (simp add: GetMajority_def)

lemma votes_subscript [simp]: "votes T (subscript ns P) Q = votes T ns Q"
  by (simp add: votes_def)

lemma node_at_set_internal:
  "node_at (set_internal T P ns) Q =
     (if Q = P then (node_at ns P)\<lparr>output_value := majority_spec GetDefault (votes T ns P)\<rparr>
      else node_at ns Q)"
  by (simp add: set_internal_def Let_def node_at_upd GetMajority_def GetMajority_dflt_fst)

lemma inp_set_leaf [simp]: "inp (set_leaf P ns) = inp ns"
  by (rule ext) (simp add: inp_def node_at_set_leaf)

lemma inp_set_internal [simp]: "inp (set_internal T P ns) = inp ns"
  by (rule ext) (simp add: inp_def node_at_set_internal)

lemma inp_subscript [simp]: "inp (subscript ns P) = inp ns"
  by (rule ext) (simp add: inp_def)

lemma outp_subscript [simp]: "outp (subscript ns P) = outp ns"
  by (rule ext) (simp add: outp_def)

lemma outp_set_leaf: "outp (set_leaf P ns) Q = (if Q = P then inp ns P else outp ns Q)"
  by (simp add: outp_def inp_def node_at_set_leaf)

lemma votes_outp: "votes T ns P = map (outp ns) (children_of T P)"
  by (simp add: votes_def outp_def [abs_def])

lemma outp_set_internal:
  "outp (set_internal T P ns) Q =
     (if Q = P then majority_spec GetDefault (map (outp ns) (children_of T P)) else outp ns Q)"
  by (simp add: outp_def [abs_def] node_at_set_internal votes_def)

lemma inp_fold [simp]:
  assumes "\<And>x ns. inp (g x ns) = inp ns"
  shows "inp (fold g xs ns) = inp ns"
  by (induction xs arbitrary: ns) (simp_all add: assms)

lemma fold_concat_map: "fold g (concat (map L xs)) ns = fold (\<lambda>i. fold g (L i)) xs ns"
  by (induction xs arbitrary: ns) simp_all

lemma leaf_pass_flat: "leaf_pass tr T ns = fold set_leaf (rank_paths tr T (mM tr)) ns"
proof -
  have "leaf_ids T (mM tr) = (\<lambda>i. fold set_leaf (mPathsByRank T (mM tr) i))"
    by (rule ext)+ (simp add: leaf_ids_def)
  then show ?thesis
    by (simp add: leaf_pass_def rank_paths_def fold_concat_map)
qed

lemma reduce_round_flat: "reduce_round tr T r ns = fold (set_internal T) (rank_paths tr T r) ns"
proof -
  have "reduce_ids T r = (\<lambda>i. fold (set_internal T) (mPathsByRank T r i))"
    by (rule ext)+ (simp add: reduce_ids_def)
  then show ?thesis
    by (simp add: reduce_round_def rank_paths_def fold_concat_map)
qed

lemma outp_fold_set_leaf:
  "outp (fold set_leaf L ns) Q = (if Q \<in> set L then inp ns Q else outp ns Q)"
  by (induction L arbitrary: ns) (auto simp: outp_set_leaf)

lemma outp_fold_set_internal:
  assumes "\<forall>P \<in> set L. \<forall>c \<in> set (children_of T P). c \<notin> set L"
  shows "outp (fold (set_internal T) L ns) Q =
           (if Q \<in> set L then majority_spec GetDefault (map (outp ns) (children_of T Q))
            else outp ns Q)"
  using assms
proof (induction L arbitrary: ns)
  case Nil
  then show ?case by simp
next
  case (Cons P L)
  let ?ns1 = "set_internal T P ns"
  from Cons.prems have sub: "\<forall>P' \<in> set L. \<forall>c \<in> set (children_of T P'). c \<notin> set L" by auto
  have same: "map (outp ?ns1) (children_of T P') = map (outp ns) (children_of T P')"
    if "P' \<in> set (P # L)" for P'
  proof (rule map_cong [OF refl])
    fix c assume "c \<in> set (children_of T P')"
    with Cons.prems that have "c \<noteq> P" by auto
    then show "outp ?ns1 c = outp ns c" by (simp add: outp_set_internal)
  qed
  have "outp (fold (set_internal T) (P # L) ns) Q =
          (if Q \<in> set L then majority_spec GetDefault (map (outp ?ns1) (children_of T Q))
           else outp ?ns1 Q)"
    using Cons.IH [OF sub, of ?ns1] by simp
  also have "\<dots> = (if Q \<in> set (P # L) then majority_spec GetDefault (map (outp ns) (children_of T Q))
            else outp ns Q)"
  proof (cases "Q \<in> set L")
    case True
    then have eq: "map (outp ?ns1) (children_of T Q) = map (outp ns) (children_of T Q)"
      by (intro same) simp
    show ?thesis unfolding eq using True by simp
  next
    case False
    then show ?thesis by (simp add: outp_set_internal)
  qed
  finally show ?case .
qed

lemma rank_paths_mem:
  "P \<in> set (rank_paths tr T r) \<longleftrightarrow> (\<exists>i<mN tr. P \<in> set (mPathsByRank T r i))"
  by (auto simp: rank_paths_def)

lemma rank_paths_length:
  "topo_ok tr T \<Longrightarrow> P \<in> set (rank_paths tr T r) \<Longrightarrow> length P = r + 1"
  by (auto simp: rank_paths_mem dest: topo_ok_len)

lemma rank_paths_children:
  assumes "topo_ok tr T" "P \<in> set (rank_paths tr T r)" "c \<in> set (children_of T P)"
  shows "c \<in> set (rank_paths tr T (r + 1))"
proof -
  from rank_paths_length [OF assms(1,2)] topo_ok_child [OF assms(1,3)]
  show ?thesis by (auto simp: rank_paths_mem)
qed

lemma decided_leaf_pass: "decided tr T (inp ns) (mM tr) (leaf_pass tr T ns)"
proof -
  have lev: "outp (leaf_pass tr T ns) P = tree_val T (inp ns) (mM tr - r) P"
    if "mM tr \<le> r \<and> r \<le> mM tr" "P \<in> set (rank_paths tr T r)" for r P
  proof -
    from that have "r = mM tr" by simp
    with that(2) show ?thesis by (simp add: leaf_pass_flat outp_fold_set_leaf)
  qed
  show ?thesis unfolding decided_def
  proof (intro conjI allI impI ballI)
    show "inp (leaf_pass tr T ns) = inp ns" by (simp add: leaf_pass_flat)
  qed (rule lev)
qed

lemma decided_reduce_round:
  assumes ok: "topo_ok tr T" and dec: "decided tr T f (Suc k) ns" and k: "k < mM tr"
  shows "decided tr T f k (reduce_round tr T k ns)"
proof -
  let ?L = "rank_paths tr T k" and ?ns' = "reduce_round tr T k ns"
  have disj: "\<forall>P \<in> set ?L. \<forall>c \<in> set (children_of T P). c \<notin> set ?L"
  proof (intro ballI notI)
    fix P c assume "P \<in> set ?L" "c \<in> set (children_of T P)" "c \<in> set ?L"
    with rank_paths_children [OF ok] rank_paths_length [OF ok, of c k]
      rank_paths_length [OF ok, of c "k + 1"]
    show False by fastforce
  qed
  note out = outp_fold_set_internal [OF disj, of ns, folded reduce_round_flat]
  from dec have f: "inp ns = f"
    and lev: "\<And>r P. Suc k \<le> r \<Longrightarrow> r \<le> mM tr \<Longrightarrow> P \<in> set (rank_paths tr T r) \<Longrightarrow>
                outp ns P = tree_val T f (mM tr - r) P"
    by (auto simp: decided_def)
  have "outp ?ns' P = tree_val T f (mM tr - r) P"
    if r: "k \<le> r" "r \<le> mM tr" and P: "P \<in> set (rank_paths tr T r)" for r P
  proof (cases "r = k")
    case True
    have eq: "map (outp ns) (children_of T P) = map (tree_val T f (mM tr - Suc k)) (children_of T P)"
    proof (rule map_cong [OF refl])
      fix c assume "c \<in> set (children_of T P)"
      with rank_paths_children [OF ok, of P k c] P True
      have "c \<in> set (rank_paths tr T (Suc k))" by simp
      with k show "outp ns c = tree_val T f (mM tr - Suc k) c" by (intro lev) auto
    qed
    from k have d: "mM tr - k = Suc (mM tr - Suc k)" by simp
    show ?thesis using P True by (simp add: out d eq)
  next
    case False
    with r have r': "Suc k \<le> r" by simp
    from rank_paths_length [OF ok P] rank_paths_length [OF ok, of P k] False
    have "P \<notin> set ?L" by auto
    with lev [OF r' r(2) P] show ?thesis by (simp add: out)
  qed
  then have lev': "outp ?ns' P = tree_val T f (mM tr - r) P"
    if "k \<le> r \<and> r \<le> mM tr" "P \<in> set (rank_paths tr T r)" for r P
    using that by blast
  show ?thesis unfolding decided_def
  proof (intro conjI allI impI ballI)
    show "inp ?ns' = f" using f by (simp add: reduce_round_flat)
  qed (rule lev')
qed

lemma decided_rounds:
  assumes ok: "topo_ok tr T"
  shows "decided tr T f k ns \<Longrightarrow> k \<le> mM tr \<Longrightarrow>
           decided tr T f 0 (fold (reduce_round tr T) (rev [0..<k]) ns)"
proof (induction k arbitrary: ns)
  case 0
  then show ?case by simp
next
  case (Suc k)
  from Suc.prems have "decided tr T f k (reduce_round tr T k ns)"
    by (intro decided_reduce_round [OF ok]) auto
  with Suc.prems show ?case by (simp add: Suc.IH)
qed

lemma decided_Decide_nodes:
  "topo_ok tr T \<Longrightarrow> decided tr T (inp ns) 0 (Decide_nodes tr T ns)"
  unfolding Decide_nodes_def
  by (rule decided_rounds [OF _ decided_leaf_pass]) simp_all

lemma Decide_value:
  assumes "topo_ok tr T" "mSource tr < mN tr" "mId p \<noteq> mSource tr"
  shows "fst (Decide tr T p) = tree_val T (inp (mNodes p)) (mM tr) [id_char (mSource tr)]"
proof -
  from topo_ok_nonempty [OF assms(1)] assms(2)
  have "hd (mPathsByRank T 0 (mSource tr)) \<in> set (rank_paths tr T 0)"
    by (auto simp: rank_paths_mem)
  with decided_Decide_nodes [OF assms(1), of "mNodes p"]
  have "outp (Decide_nodes tr T (mNodes p)) (hd (mPathsByRank T 0 (mSource tr)))
          = tree_val T (inp (mNodes p)) (mM tr) (hd (mPathsByRank T 0 (mSource tr)))"
    by (auto simp: decided_def)
  with assms(3) show ?thesis
    by (simp add: Decide_def Let_def topo_ok_hd [OF assms(1)] outp_def)
qed

lemma inp_Decide [simp]: "inp (mNodes (snd (Decide tr T p))) = inp (mNodes p)"
  by (simp add: Decide_def Let_def Decide_nodes_def leaf_pass_flat reduce_round_flat)

lemma mId_Decide [simp]: "mId (snd (Decide tr T p)) = mId p"
  by (simp add: Decide_def Let_def)

section \<open>Calling \<open>Decide\<close> twice\<close>

lemma main_run_length: "mSource tr < mN tr \<Longrightarrow> length (snd (main_run tr)) = mN tr"
  using main_run_inv [of tr] by (simp add: run_inv_def)

lemma main_run_source_nodes:
  "mSource tr < mN tr \<Longrightarrow> mNodes (snd (main_run tr) ! mSource tr) = seed_nodes"
  using main_run_inv [of tr] by (simp add: run_inv_def)

lemma Decide_keeps_inputs:
  assumes "mNodes p P = Some nd"
  shows "\<exists>nd'. mNodes (snd (Decide tr T p)) P = Some nd' \<and> input_value nd' = input_value nd"
proof -
  from assms have "P \<in> dom (mNodes (snd (Decide tr T p)))" by (auto simp: dom_Decide)
  then obtain nd' where nd': "mNodes (snd (Decide tr T p)) P = Some nd'" by auto
  have "inp (mNodes (snd (Decide tr T p))) P = inp (mNodes p) P" by simp
  then have "input_value (node_at (mNodes (snd (Decide tr T p))) P) = input_value (node_at (mNodes p) P)"
    unfolding inp_def .
  with nd' assms have "input_value nd' = input_value nd" by (simp add: node_at_def)
  with nd' show ?thesis by simp
qed

lemma Decide_again:
  assumes "topo_ok tr T" "mSource tr < mN tr"
    and "mId p = mSource tr \<longrightarrow> mNodes p = seed_nodes"
  shows "fst (Decide tr T (snd (Decide tr T p))) = fst (Decide tr T p)"
proof (cases "mId p = mSource tr")
  case True
  with assms(3) have "Decide tr T p = (input_value GetSourceValue, p)"
    by (intro Decide_source) auto
  then show ?thesis by simp
next
  case False
  then have "mId (snd (Decide tr T p)) \<noteq> mSource tr" by simp
  from Decide_value [OF assms(1,2) this] Decide_value [OF assms(1,2) False]
  show ?thesis by simp
qed

text \<open>
  Claim C7.  For every process of \<open>main\<close> after the rounds: a second call of \<open>Decide\<close>,
  on the process as the first call left it, returns the value the first call returned,
  and every node the process had before the first call is still there after the second,
  with the same input value.
\<close>

theorem Decide_twice:
  assumes "mSource tr < mN tr" "j < mN tr"
  shows "fst (Decide tr (fst (main_run tr))
                (snd (Decide tr (fst (main_run tr)) (snd (main_run tr) ! j))))
           = fst (Decide tr (fst (main_run tr)) (snd (main_run tr) ! j))
       \<and> (\<forall>P nd. mNodes (snd (main_run tr) ! j) P = Some nd \<longrightarrow>
             (\<exists>nd'. mNodes (snd (Decide tr (fst (main_run tr))
                                  (snd (Decide tr (fst (main_run tr)) (snd (main_run tr) ! j))))) P
                       = Some nd'
                   \<and> input_value nd' = input_value nd))"
proof (intro conjI allI impI)
  let ?T = "fst (main_run tr)" and ?p = "snd (main_run tr) ! j"
  have "mId ?p = mSource tr \<longrightarrow> mNodes ?p = seed_nodes"
    using main_run_mId [OF assms] main_run_source_nodes [OF assms(1)] by simp
  from Decide_again [OF _ assms(1) this, of ?T] construct_topo_ok [OF assms(1)]
  show "fst (Decide tr ?T (snd (Decide tr ?T ?p))) = fst (Decide tr ?T ?p)" by simp
next
  let ?T = "fst (main_run tr)" and ?p = "snd (main_run tr) ! j"
  fix P nd assume "mNodes ?p P = Some nd"
  from Decide_keeps_inputs [OF this, of tr ?T]
  obtain nd1 where nd1: "mNodes (snd (Decide tr ?T ?p)) P = Some nd1" "input_value nd1 = input_value nd"
    by blast
  from Decide_keeps_inputs [OF nd1(1), of tr ?T] nd1(2)
  show "\<exists>nd'. mNodes (snd (Decide tr ?T (snd (Decide tr ?T ?p)))) P = Some nd'
              \<and> input_value nd' = input_value nd" by auto
qed

theorem Decide_twice_witness:
  "mSource mTraits < mN mTraits \<and> (0::nat) < mN mTraits
   \<and> fst (Decide mTraits (fst (main_run mTraits))
                (snd (Decide mTraits (fst (main_run mTraits)) (snd (main_run mTraits) ! 0))))
           = fst (Decide mTraits (fst (main_run mTraits)) (snd (main_run mTraits) ! 0))
   \<and> mNodes (snd (main_run mTraits) ! 0) ''30'' = Some \<lparr>input_value = ONE, output_value = UNKNOWN\<rparr>
   \<and> (\<exists>nd'. mNodes (snd (Decide mTraits (fst (main_run mTraits))
                         (snd (Decide mTraits (fst (main_run mTraits)) (snd (main_run mTraits) ! 0))))) ''30''
               = Some nd'
             \<and> input_value nd' = ONE)"
proof -
  have h: "mSource mTraits < mN mTraits" "(0::nat) < mN mTraits" by (simp_all add: mTraits_def)
  note e = self_delivery_reference_eval
  from Decide_twice [OF h] have
    a: "fst (Decide mTraits (fst (main_run mTraits))
                (snd (Decide mTraits (fst (main_run mTraits)) (snd (main_run mTraits) ! 0))))
           = fst (Decide mTraits (fst (main_run mTraits)) (snd (main_run mTraits) ! 0))"
    and b: "\<And>P nd. mNodes (snd (main_run mTraits) ! 0) P = Some nd \<Longrightarrow>
             (\<exists>nd'. mNodes (snd (Decide mTraits (fst (main_run mTraits))
                                  (snd (Decide mTraits (fst (main_run mTraits)) (snd (main_run mTraits) ! 0))))) P
                       = Some nd'
                   \<and> input_value nd' = input_value nd)"
    by blast+
  from b [OF e] h a e show ?thesis by simp
qed

section \<open>The reference run\<close>

lemma fold_report_step:
  assumes "distinct js" "\<forall>j \<in> set js. ps' ! j = ps ! j"
  shows "fst (fold (report_step tr T) js (out, ps')) =
           out @ map (\<lambda>j. if IsFaulty tr j then None else Some (fst (Decide tr T (ps ! j)))) js"
  using assms
proof (induction js arbitrary: out ps')
  case Nil
  then show ?case by simp
next
  case (Cons j js)
  let ?f = "\<lambda>j. if IsFaulty tr j then None else Some (fst (Decide tr T (ps ! j)))"
  obtain ps'' where step: "report_step tr T j (out, ps') = (out @ [?f j], ps'')"
    and same: "\<forall>i. i \<noteq> j \<longrightarrow> ps'' ! i = ps' ! i"
    using Cons.prems(2) by (cases "IsFaulty tr j") (auto simp: report_step_def Let_def)
  from Cons.prems same have "\<forall>i \<in> set js. ps'' ! i = ps ! i" by auto
  with Cons.prems(1) have "fst (fold (report_step tr T) js (out @ [?f j], ps'')) = (out @ [?f j]) @ map ?f js"
    by (intro Cons.IH) auto
  with step show ?case by simp
qed

lemma main_report_eq:
  "main_report tr =
     map (\<lambda>j. if IsFaulty tr j then None
               else Some (fst (Decide tr (fst (construct tr)) (snd (main_run tr) ! j)))) [0..<mN tr]"
  using fold_report_step [of "[0..<mN tr]" "snd (main_run tr)" "snd (main_run tr)" tr "fst (construct tr)" "[]"]
  by (simp add: main_report_def report_def Let_def)

lemma reference_tree_values:
  "map (\<lambda>j. tree_val (fst (construct mTraits)) (inp (mNodes (snd (main_run mTraits) ! j)))
               (mM mTraits) [id_char (mSource mTraits)]) [0, 1, 4, 5, 6]
     = [ONE, ONE, ONE, ONE, ONE]"
  by code_simp

lemma reference_Decide:
  assumes "j < 7" "j \<noteq> 3"
  shows "fst (Decide mTraits (fst (construct mTraits)) (snd (main_run mTraits) ! j)) =
           tree_val (fst (construct mTraits)) (inp (mNodes (snd (main_run mTraits) ! j)))
               (mM mTraits) [id_char (mSource mTraits)]"
proof -
  have h: "mSource mTraits < mN mTraits" "j < mN mTraits" "j \<noteq> mSource mTraits"
    using assms by (simp_all add: mTraits_def)
  from main_run_mId [OF h(1,2)] h(3) have "mId (snd (main_run mTraits) ! j) \<noteq> mSource mTraits" by simp
  from Decide_value [OF construct_topo_ok [OF h(1)] h(1) this] show ?thesis .
qed

lemma upt_7: "[0..<7] = [0, 1, 2, 3, 4, 5, 6]"
  by code_simp

text \<open>
  Claim C1.  The report of the program as configured (\<open>N = 7\<close>, \<open>M = 2\<close>, \<open>SOURCE = 3\<close>,
  the source and process 2 faulty): the processes 0, 1, 4, 5 and 6 all decide \<open>ONE\<close>;
  for the source 3 and for process 2 \<open>Decide\<close> is not called.
\<close>

theorem reference_run_agreement:
  "main_report mTraits = [Some ONE, Some ONE, None, None, Some ONE, Some ONE, Some ONE]"
proof -
  have n: "mN mTraits = 7" and f: "IsFaulty mTraits j \<longleftrightarrow> j = 3 \<or> j = 2" for j
    by (simp_all add: mTraits_def IsFaulty_def)
  from reference_tree_values have
    "fst (Decide mTraits (fst (construct mTraits)) (snd (main_run mTraits) ! 0)) = ONE"
    "fst (Decide mTraits (fst (construct mTraits)) (snd (main_run mTraits) ! 1)) = ONE"
    "fst (Decide mTraits (fst (construct mTraits)) (snd (main_run mTraits) ! 4)) = ONE"
    "fst (Decide mTraits (fst (construct mTraits)) (snd (main_run mTraits) ! 5)) = ONE"
    "fst (Decide mTraits (fst (construct mTraits)) (snd (main_run mTraits) ! 6)) = ONE"
    by (simp_all add: reference_Decide)
  then show ?thesis
    by (simp add: main_report_eq n upt_7 f)
qed

end
